theory Spec2Isabelle
  imports
    Complex_Main
    "HOL-Library.AList"
    "HOL-Library.Multiset"
    "HOL-Library.Char_ord"
    "HOL-Library.List_Lexorder"
    "HOL-Library.Product_Lexorder"
begin

section \<open>TagZilla (glu/modules/tagzilla/tagzilla.py): data model\<close>

text \<open>
  Conventions of the embedding.
  \<^item> Python floats are modelled as \<^typ>\<open>real\<close> (exact arithmetic) where they are
    computed with; where a float is printed, it is its sign bit and its magnitude, so that
    the negative zero is a value of its own. Python ints are \<^typ>\<open>int\<close>, lengths and
    counters that cannot be negative \<^typ>\<open>nat\<close>.
  \<^item> A Python \<open>set\<close> of locus names is a list without duplicates; the list order stands
    for the (arbitrary but fixed) iteration order of the set.
  \<^item> A Python \<open>dict\<close> is an association list with distinct keys; the list order stands for
    the iteration order of the dict.
  \<^item> Every \<open>raise\<close> of the source is a value \<open>Inl e\<close> of a sum type.
\<close>

datatype error =
  KeyError | ValueError | ZeroDivisionError | IndexError | AssertionError | NameError | StopIteration

subsection \<open>Sets and dicts\<close>

definition set_add :: "'a \<Rightarrow> 'a list \<Rightarrow> 'a list" where
  "set_add x s = (if x \<in> set s then s else s @ [x])"

definition set_remove :: "'a \<Rightarrow> 'a list \<Rightarrow> error + 'a list" where
  "set_remove x s = (if x \<in> set s then Inr (removeAll x s) else Inl KeyError)"

definition dict_lookup :: "('k \<times> 'v) list \<Rightarrow> 'k \<Rightarrow> error + 'v" where
  "dict_lookup dct k = (case map_of dct k of None \<Rightarrow> Inl KeyError | Some v \<Rightarrow> Inr v)"

definition dict_pop :: "('k \<times> 'v) list \<Rightarrow> 'k \<Rightarrow> error + ('v \<times> ('k \<times> 'v) list)" where
  "dict_pop dct k = (case map_of dct k of None \<Rightarrow> Inl KeyError | Some v \<Rightarrow> Inr (v, AList.delete k dct))"

text \<open>\<open>dct.get(k, dflt)\<close>, \<open>dct[k] = v\<close> is \<open>AList.update k v dct\<close>.\<close>

definition dict_get :: "('k \<times> 'v) list \<Rightarrow> 'k \<Rightarrow> 'v \<Rightarrow> 'v" where
  "dict_get dct k dflt = (case map_of dct k of None \<Rightarrow> dflt | Some v \<Rightarrow> v)"

subsection \<open>class Locus\<close>

record Locus =
  name :: string
  location :: int
  maf :: real
  genos :: "string list"

subsection \<open>class Bin(set)\<close>

record Bin =
  members :: "string list"
  maf :: real
  disposition :: int
  maxcovered :: nat

definition INCLUDE_UNTYPED :: int where "INCLUDE_UNTYPED = - 2"
definition INCLUDE_TYPED :: int where "INCLUDE_TYPED = - 1"
definition NORMAL :: int where "NORMAL = 0"
definition EXCLUDE :: int where "EXCLUDE = 2"

text \<open>\<open>Bin.__init__(iterable, maf, disposition, maxcovered)\<close>: \<open>maf or 0.\<close>, and
  \<open>max(maxcovered, len(self))\<close> where \<open>max(None, n) = n\<close> in Python 2.\<close>

definition Bin_init :: "string list \<Rightarrow> real option \<Rightarrow> int \<Rightarrow> nat option \<Rightarrow> Bin" where
  "Bin_init iterable m dsp mc =
     (let s = remdups iterable in
      \<lparr> members = s,
        maf = (case m of None \<Rightarrow> 0 | Some v \<Rightarrow> v),
        disposition = dsp,
        maxcovered = (case mc of None \<Rightarrow> length s | Some k \<Rightarrow> max k (length s)) \<rparr>)"

text \<open>\<open>Bin.add\<close>: \<open>set.add\<close>, then \<open>maxcovered\<close>, then \<open>self.maf += maf\<close>.\<close>

definition Bin_add :: "string \<Rightarrow> real \<Rightarrow> Bin \<Rightarrow> Bin" where
  "Bin_add lname m b =
     (let s = set_add lname (members b) in
      b\<lparr> members := s, maxcovered := max (maxcovered b) (length s), Bin.maf := Bin.maf b + m \<rparr>)"

text \<open>\<open>Bin.remove\<close>: \<open>set.remove\<close> raises \<open>KeyError\<close> before \<open>self.maf -= maf\<close> runs.
  The result is the object after the call together with the exception raised, if any.\<close>

definition Bin_remove :: "string \<Rightarrow> real \<Rightarrow> Bin \<Rightarrow> Bin \<times> error option" where
  "Bin_remove lname m b =
     (case set_remove lname (members b) of
        Inl e \<Rightarrow> (b, Some e)
      | Inr s \<Rightarrow> (b\<lparr> members := s, Bin.maf := Bin.maf b - m \<rparr>, None))"

definition Bin_discard :: "string \<Rightarrow> real \<Rightarrow> Bin \<Rightarrow> Bin" where
  "Bin_discard lname m b =
     (if lname \<in> set (members b)
      then b\<lparr> members := removeAll lname (members b), Bin.maf := Bin.maf b - m \<rparr>
      else b)"

definition Bin_average_maf :: "Bin \<Rightarrow> error + real" where
  "Bin_average_maf b =
     (if members b = [] then Inl ZeroDivisionError
      else Inr (Bin.maf b / real (length (members b))))"

definition Bin_priority :: "Bin \<Rightarrow> int \<times> int \<times> real" where
  "Bin_priority b = (Bin.disposition b, - int (length (members b)), - Bin.maf b)"

text \<open>The class invariant of a \<open>Bin\<close> built by its constructor and changed only through
  its methods: no duplicate members, and \<open>maxcovered\<close> at least the current size.\<close>

definition Bin_inv :: "Bin \<Rightarrow> bool" where
  "Bin_inv b = (distinct (members b) \<and> length (members b) \<le> Bin.maxcovered b)"

text \<open>The sum of the MAFs of the current members, for a table of per-locus MAFs.\<close>

definition maf_sum :: "(string \<Rightarrow> real) \<Rightarrow> Bin \<Rightarrow> real" where
  "maf_sum mf b = sum_list (map mf (members b))"

definition locus_maf :: "(string \<times> Locus) list \<Rightarrow> string \<Rightarrow> real" where
  "locus_maf loci l = (case map_of loci l of None \<Rightarrow> 0 | Some L \<Rightarrow> Locus.maf L)"

subsection \<open>class BinResult and the options used by the core\<close>

text \<open>The field \<open>include\<close> of the source is \<open>include_tag\<close> here (\<open>include\<close> is a keyword).\<close>

record BinResult =
  binnum :: int
  tags :: "string list"
  others :: "string list"
  tags_required :: int
  average_maf :: real
  include_tag :: "string option"
  ld :: "(string \<times> string \<times> real \<times> real) list"
  disposition :: string
  maxcovered :: nat
  recommended_tags :: "string list"
  include_typed :: "string list"

record options =
  targetbins :: int
  targetloci :: int
  locipertag :: "int option"
  loglocipertag :: "real option"

text \<open>\<open>bin_qualifier(bin, binned_loci, options)\<close> returns the qualifier and the bin, whose
  disposition it may have overwritten.\<close>

definition bin_qualifier :: "BinResult \<Rightarrow> int \<Rightarrow> options \<Rightarrow> string \<times> BinResult" where
  "bin_qualifier bin binned_loci opts =
     (if ((targetbins opts \<noteq> 0 \<and> binnum bin > targetbins opts) \<or>
          (targetloci opts \<noteq> 0 \<and> binned_loci > targetloci opts)) \<and>
         BinResult.disposition bin \<noteq> ''obligate-exclude''
      then (''residual'', bin\<lparr> BinResult.disposition := ''residual'' \<rparr>)
      else if BinResult.disposition bin = ''obligate-exclude'' then (''excluded'', bin)
      else if BinResult.disposition bin = ''obligate-typed'' then (''typed_bin'', bin)
      else if BinResult.disposition bin = ''obligate-untyped'' then (''untyped_bin'', bin)
      else ('''', bin))"

section \<open>sfloat: compact printing of floats\<close>

text \<open>
  \<open>sfloat(n) = ('%.3f' % n).rstrip('0.').lstrip('0') or '0'\<close>.

  A finite float is its sign bit and its magnitude, the exact value of the float without
  the sign, which is not negative. The float type has two zeros: \<open>0.0\<close> is
  \<open>Float False 0\<close> and \<open>-0.0\<close> is \<open>Float True 0\<close>; the latter is what
  \<open>slow_estimate_ld\<close> returns as \<open>dprime\<close> when \<open>d\<close> is \<open>0.0\<close> and \<open>dmax\<close> is negative.
  An int is printed as the float of the same value. \<open>nan\<close> and \<open>inf\<close> are left out.

  \<open>'%.3f' % n\<close> prints the sign \<open>-\<close> when the sign bit is set, then the magnitude rounded
  to the nearest multiple of 1/1000 (ties to even) as integer digits, a point and three
  fraction digits. \<open>thousandths\<close> is the rounded magnitude in units of 1/1000.
  \<open>rstrip\<close> and \<open>lstrip\<close> take a set of characters, as the string methods do.
\<close>

datatype pyfloat = Float (sign_bit: bool) (magnitude: real)

definition digit_char :: "nat \<Rightarrow> char" where
  "digit_char d =
     (if d = 0 then CHR ''0'' else if d = 1 then CHR ''1'' else if d = 2 then CHR ''2''
      else if d = 3 then CHR ''3'' else if d = 4 then CHR ''4'' else if d = 5 then CHR ''5''
      else if d = 6 then CHR ''6'' else if d = 7 then CHR ''7'' else if d = 8 then CHR ''8''
      else CHR ''9'')"

fun show_nat :: "nat \<Rightarrow> string" where
  "show_nat n = (if n < 10 then [digit_char n] else show_nat (n div 10) @ [digit_char (n mod 10)])"

declare show_nat.simps [simp del]

definition round_half_even :: "real \<Rightarrow> int" where
  "round_half_even y =
     (let f = \<lfloor>y\<rfloor>; r = y - of_int f in
      if r < 1/2 then f else if 1/2 < r then f + 1 else if even f then f else f + 1)"

definition thousandths :: "pyfloat \<Rightarrow> nat" where
  "thousandths x = nat (round_half_even (\<bar>magnitude x\<bar> * 1000))"

definition frac3 :: "nat \<Rightarrow> string" where
  "frac3 k = [digit_char (k div 100 mod 10), digit_char (k div 10 mod 10), digit_char (k mod 10)]"

definition fmt_3f :: "pyfloat \<Rightarrow> string" where
  "fmt_3f x =
     (let k = thousandths x in
      (if sign_bit x then ''-'' else '''') @ show_nat (k div 1000) @ ''.'' @ frac3 k)"

definition rstrip :: "string \<Rightarrow> string \<Rightarrow> string" where
  "rstrip cs s = rev (dropWhile (\<lambda>c. c \<in> set cs) (rev s))"

definition lstrip :: "string \<Rightarrow> string \<Rightarrow> string" where
  "lstrip cs s = dropWhile (\<lambda>c. c \<in> set cs) s"

definition sfloat :: "pyfloat \<Rightarrow> string" where
  "sfloat n = (let s = lstrip ''0'' (rstrip ''0.'' (fmt_3f n)) in if s = [] then ''0'' else s)"


section \<open>The LD estimator\<close>

text \<open>
  A genotype is a string of allele symbols, normally two, with \<open>' '\<close> for a missing allele.
  \<open>count_diplotypes\<close> replaces each genotype by \<open>min(g) + max(g)\<close>, a string of exactly two
  characters, which is a pair of characters here. The pure-Python functions
  (\<open>slow_count_haplotypes\<close>, \<open>slow_estimate_ld\<close>) are the ones modelled; the optional C
  accelerator is not part of the sources.
\<close>

type_synonym diplo = "(char \<times> char) \<times> (char \<times> char)"

type_synonym hapcounts = "int \<times> int \<times> int \<times> int \<times> int"

text \<open>\<open>min(g)\<close> and \<open>max(g)\<close> of a string; both raise \<open>ValueError\<close> on the empty string.\<close>

fun py_min :: "char list \<Rightarrow> error + char" where
  "py_min [] = Inl ValueError"
| "py_min (c # cs) = Inr (fold min cs c)"

fun py_max :: "char list \<Rightarrow> error + char" where
  "py_max [] = Inl ValueError"
| "py_max (c # cs) = Inr (fold max cs c)"

definition normalise :: "string \<Rightarrow> error + (char \<times> char)" where
  "normalise g =
     (case py_min g of Inl e \<Rightarrow> Inl e | Inr lo \<Rightarrow>
      case py_max g of Inl e \<Rightarrow> Inl e | Inr hi \<Rightarrow> Inr (lo, hi))"

fun count_diplotypes_loop ::
  "(string \<times> string) list \<Rightarrow> (diplo \<times> int) list \<Rightarrow> error + (diplo \<times> int) list" where
  "count_diplotypes_loop [] diplo_counts = Inr diplo_counts"
| "count_diplotypes_loop ((g1, g2) # rest) diplo_counts =
     (if g1 = ''  '' \<or> g2 = ''  '' then count_diplotypes_loop rest diplo_counts
      else
        case normalise g1 of Inl e \<Rightarrow> Inl e | Inr n1 \<Rightarrow>
        case normalise g2 of Inl e \<Rightarrow> Inl e | Inr n2 \<Rightarrow>
          count_diplotypes_loop rest
            (AList.update (n1, n2) (dict_get diplo_counts (n1, n2) 0 + 1) diplo_counts))"

definition count_diplotypes :: "string list \<Rightarrow> string list \<Rightarrow> error + (diplo \<times> int) list" where
  "count_diplotypes genos1 genos2 = count_diplotypes_loop (zip genos1 genos2) []"

text \<open>\<open>find_hetz(alleles)\<close>: the sorted alleles without the missing symbol, padded with NUL
  to two characters; more than two alleles raise \<open>ValueError\<close>.\<close>

definition find_hetz :: "char list \<Rightarrow> error + (char \<times> char)" where
  "find_hetz alleles =
     (let het = filter (\<lambda>c. c \<noteq> CHR '' '') (sort (remdups alleles)) in
      case het of
        [] \<Rightarrow> Inr (CHR 0x00, CHR 0x00)
      | [a] \<Rightarrow> Inr (a, CHR 0x00)
      | [a, b] \<Rightarrow> Inr (a, b)
      | _ \<Rightarrow> Inl ValueError)"

definition find_heterozygotes ::
  "(diplo \<times> int) list \<Rightarrow> error + ((char \<times> char) \<times> (char \<times> char))" where
  "find_heterozygotes diplo_counts =
     (let a1 = concat (map (\<lambda>((g1, g2), n). [fst g1, snd g1]) diplo_counts);
          a2 = concat (map (\<lambda>((g1, g2), n). [fst g2, snd g2]) diplo_counts)
      in case find_hetz a1 of Inl e \<Rightarrow> Inl e | Inr het1 \<Rightarrow>
         case find_hetz a2 of Inl e \<Rightarrow> Inl e | Inr het2 \<Rightarrow> Inr (het1, het2))"

definition has_missing :: "char \<times> char \<Rightarrow> bool" where
  "has_missing g = (fst g = CHR '' '' \<or> snd g = CHR '' '')"

text \<open>\<open>if ' ' in g and g[1] != het[1]: g = g[::-1]\<close>.\<close>

definition orient :: "(char \<times> char) \<Rightarrow> (char \<times> char) \<Rightarrow> (char \<times> char)" where
  "orient het g = (if has_missing g \<and> snd g \<noteq> snd het then prod.swap g else g)"

text \<open>One pass of the loop of \<open>slow_count_haplotypes\<close> over \<open>diplo_counts\<close>; the counters
  \<open>x[0..4]\<close> are the tuple \<open>(c11, c12, c21, c22, dh)\<close>.\<close>

definition hap_step ::
  "(char \<times> char) \<Rightarrow> (char \<times> char) \<Rightarrow> diplo \<times> int \<Rightarrow> hapcounts \<Rightarrow> hapcounts" where
  "hap_step het1 het2 entry x =
     (case (entry, x) of (((g1, g2), n), (c11, c12, c21, c22, dh)) \<Rightarrow>
        if g1 = het1 \<and> g2 = het2 then (c11, c12, c21, c22, n)
        else
          let h1 = orient het1 g1;
              h2 = orient het2 g2;
              m = (if \<not> has_missing h1 \<and> \<not> has_missing h2 \<and> h1 \<noteq> het1 \<and> h2 \<noteq> het2
                   then n * 2 else n)
          in (c11 + (if fst h1 = fst het1 \<and> fst h2 = fst het2 then m else 0),
              c12 + (if fst h1 = fst het1 \<and> snd h2 = snd het2 then m else 0),
              c21 + (if snd h1 = snd het1 \<and> fst h2 = fst het2 then m else 0),
              c22 + (if snd h1 = snd het1 \<and> snd h2 = snd het2 then m else 0),
              dh))"

definition slow_count_haplotypes :: "string list \<Rightarrow> string list \<Rightarrow> error + hapcounts" where
  "slow_count_haplotypes genos1 genos2 =
     (if length genos1 \<noteq> length genos2 then Inl ValueError
      else
        case count_diplotypes genos1 genos2 of Inl e \<Rightarrow> Inl e | Inr diplo_counts \<Rightarrow>
        case find_heterozygotes diplo_counts of Inl e \<Rightarrow> Inl e | Inr (het1, het2) \<Rightarrow>
          Inr (fold (hap_step het1 het2) diplo_counts (0, 0, 0, 0, 0)))"

definition epsilon :: real where
  "epsilon = 10 / 10 ^ 10"

definition TOLERANCE :: real where
  "TOLERANCE = 10 / 10 ^ 9"

text \<open>The EM loop \<open>for i in xrange(100)\<close>, in three pieces: forcing the estimates away from
  the boundaries, the log-likelihood, and the update of the estimates. \<open>math.log\<close> is
  \<open>ln\<close>; its arguments are at least \<open>epsilon\<close>.\<close>

definition em_clamp :: "real \<times> real \<times> real \<times> real \<Rightarrow> real \<times> real \<times> real \<times> real" where
  "em_clamp ps =
     (case ps of (p11, p12, p21, p22) \<Rightarrow>
        (max epsilon p11, max epsilon p12, max epsilon p21, max epsilon p22))"

definition em_loglike :: "hapcounts \<Rightarrow> real \<times> real \<times> real \<times> real \<Rightarrow> real" where
  "em_loglike cs ps =
     (case (cs, ps) of ((c11, c12, c21, c22, dh), (p11, p12, p21, p22)) \<Rightarrow>
        of_int c11 * ln p11 + of_int c12 * ln p12 + of_int c21 * ln p21 + of_int c22 * ln p22
        + of_int dh * ln (p11 * p22 + p12 * p21))"

definition em_update ::
  "hapcounts \<Rightarrow> real \<Rightarrow> real \<times> real \<times> real \<times> real \<Rightarrow> real \<times> real \<times> real \<times> real" where
  "em_update cs n ps =
     (case (cs, ps) of ((c11, c12, c21, c22, dh), (p11, p12, p21, p22)) \<Rightarrow>
        let a = p11 * p22 + p12 * p21;
            nx1 = of_int dh * p11 * p22 / a;
            nx2 = of_int dh * p12 * p21 / a
        in ((of_int c11 + nx1) / n, (of_int c12 + nx2) / n,
            (of_int c21 + nx2) / n, (of_int c22 + nx1) / n))"

text \<open>The result is the haplotype frequencies when the loop ends together with the number
  of iterations it began (a ghost counter).\<close>

fun em_loop ::
  "nat \<Rightarrow> hapcounts \<Rightarrow> real \<Rightarrow> real \<times> real \<times> real \<times> real \<Rightarrow> real
     \<Rightarrow> (real \<times> real \<times> real \<times> real) \<times> nat" where
  "em_loop 0 cs n ps oldloglike = (ps, 0)"
| "em_loop (Suc k) cs n ps oldloglike =
     (if \<bar>em_loglike cs (em_clamp ps) - oldloglike\<bar> < TOLERANCE then (em_clamp ps, 1)
      else
        case em_loop k cs n (em_update cs n (em_clamp ps)) (em_loglike cs (em_clamp ps)) of
          (r, iterations) \<Rightarrow> (r, Suc iterations))"

text \<open>\<open>slow_estimate_ld(c11, c12, c21, c22, dh)\<close>, returning \<open>(r2, dprime)\<close> and the number of
  EM iterations. The divisions by \<open>n\<close>, by \<open>dmax\<close> and by \<open>p(1-p)q(1-q)\<close> raise
  \<open>ZeroDivisionError\<close> on a zero divisor.\<close>

definition slow_estimate_ld_run :: "hapcounts \<Rightarrow> error + ((real \<times> real) \<times> nat)" where
  "slow_estimate_ld_run cs =
     (case cs of (c11, c12, c21, c22, dh) \<Rightarrow>
        if dh = 0 \<and> 0 \<in> set [c11 + c12, c21 + c22, c11 + c21, c12 + c22] then Inr ((0, 0), 0)
        else
          let n = c11 + c12 + c21 + c22 + 2 * dh in
          if n = 0 then Inl ZeroDivisionError
          else
            let p = of_int (c11 + c12 + dh) / of_int n;
                q = of_int (c11 + c21 + dh) / of_int n;
                r = em_loop 100 cs (of_int n)
                      (p * q, p * (1 - q), (1 - p) * q, (1 - p) * (1 - q)) (- 999999999)
            in case fst r of (p11, p12, p21, p22) \<Rightarrow>
                 let d = p11 * p22 - p12 * p21;
                     dmax = (if d > 0 then min (p * (1 - q)) ((1 - p) * q)
                             else - min (p * q) ((1 - p) * (1 - q)))
                 in if dmax = 0 then Inl ZeroDivisionError
                    else if p * (1 - p) * q * (1 - q) = 0 then Inl ZeroDivisionError
                    else Inr ((d * d / (p * (1 - p) * q * (1 - q)), d / dmax), snd r))"

definition slow_estimate_ld :: "hapcounts \<Rightarrow> error + (real \<times> real)" where
  "slow_estimate_ld cs =
     (case slow_estimate_ld_run cs of Inl e \<Rightarrow> Inl e | Inr (res, iterations) \<Rightarrow> Inr res)"

text \<open>A locus is monomorphic when its genotypes show at most one allele symbol besides the
  missing symbol. NUL is the padding symbol of \<open>find_hetz\<close> and is not an allele symbol.\<close>

definition monomorphic :: "string list \<Rightarrow> bool" where
  "monomorphic gs =
     (let alleles = remdups (filter (\<lambda>c. c \<noteq> CHR '' '') (concat gs))
      in length alleles \<le> 1 \<and> CHR 0x00 \<notin> set alleles)"

text \<open>The pair LD of two loci as \<open>scan_ldpairs\<close> computes it:
  \<open>estimate_ld(*count_haplotypes(locus1.genos, locus2.genos))\<close>.\<close>

definition pair_ld :: "Locus \<Rightarrow> Locus \<Rightarrow> error + (real \<times> real)" where
  "pair_ld locus1 locus2 =
     (case slow_count_haplotypes (genos locus1) (genos locus2) of
        Inl e \<Rightarrow> Inl e
      | Inr counts \<Rightarrow> slow_estimate_ld counts)"



section \<open>The LD-pair generators\<close>

text \<open>
  \<open>scan_ldpairs(loci, maxd, rthreshold, dthreshold)\<close> is a generator. The model returns the
  list of tuples it yields and the exception that ended it, if any (an exception of
  \<open>count_haplotypes\<close> or \<open>estimate_ld\<close> leaves the generator after the tuples yielded so
  far). The loops run over the indices as in the source; the trace keeps the indices
  \<open>(i, j)\<close> of each yielded tuple, and \<open>scan_ldpairs\<close> yields the names at those
  indices.
\<close>

function scan_inner ::
  "Locus list \<Rightarrow> int \<Rightarrow> real \<Rightarrow> real \<Rightarrow> nat \<Rightarrow> nat
     \<Rightarrow> (nat \<times> nat \<times> real \<times> real) list \<times> error option" where
  "scan_inner loci maxd rthreshold dthreshold i j =
     (if j < length loci then
        if location (loci ! j) - location (loci ! i) > maxd then ([], None)
        else
          case pair_ld (loci ! i) (loci ! j) of
            Inl e \<Rightarrow> ([], Some e)
          | Inr (r2, dprime) \<Rightarrow>
              (case scan_inner loci maxd rthreshold dthreshold i (Suc j) of
                 (ys, err) \<Rightarrow>
                   ((if r2 \<ge> rthreshold \<and> \<bar>dprime\<bar> \<ge> dthreshold then [(i, j, r2, dprime)]
                     else []) @ ys, err))
      else ([], None))"
  by pat_completeness auto
termination
  by (relation "measure (\<lambda>(loci, maxd, rthreshold, dthreshold, i, j). length loci - j)") auto

function scan_outer ::
  "Locus list \<Rightarrow> int \<Rightarrow> real \<Rightarrow> real \<Rightarrow> nat
     \<Rightarrow> (nat \<times> nat \<times> real \<times> real) list \<times> error option" where
  "scan_outer loci maxd rthreshold dthreshold i =
     (if i < length loci then
        case scan_inner loci maxd rthreshold dthreshold i (Suc i) of
          (ys, Some e) \<Rightarrow> (ys, Some e)
        | (ys, None) \<Rightarrow>
            (case scan_outer loci maxd rthreshold dthreshold (Suc i) of
               (zs, err) \<Rightarrow> (ys @ zs, err))
      else ([], None))"
  by pat_completeness auto
termination
  by (relation "measure (\<lambda>(loci, maxd, rthreshold, dthreshold, i). length loci - i)") auto

declare scan_inner.simps [simp del] scan_outer.simps [simp del]

definition scan_ldpairs_trace ::
  "Locus list \<Rightarrow> int \<Rightarrow> real \<Rightarrow> real \<Rightarrow> (nat \<times> nat \<times> real \<times> real) list \<times> error option" where
  "scan_ldpairs_trace loci maxd rthreshold dthreshold = scan_outer loci maxd rthreshold dthreshold 0"

definition scan_ldpairs ::
  "Locus list \<Rightarrow> int \<Rightarrow> real \<Rightarrow> real
     \<Rightarrow> (string \<times> string \<times> real \<times> real) list \<times> error option" where
  "scan_ldpairs loci maxd rthreshold dthreshold =
     (case scan_ldpairs_trace loci maxd rthreshold dthreshold of
        (ys, err) \<Rightarrow>
          (map (\<lambda>(i, j, r2, dprime). (name (loci ! i), name (loci ! j), r2, dprime)) ys, err))"

text \<open>What the claims require of one traced tuple.\<close>

definition good_pair ::
  "Locus list \<Rightarrow> int \<Rightarrow> real \<Rightarrow> real \<Rightarrow> nat \<times> nat \<times> real \<times> real \<Rightarrow> bool" where
  "good_pair loci maxd rthreshold dthreshold t =
     (case t of (i, j, r2, dprime) \<Rightarrow>
        i < j \<and> j < length loci \<and>
        location (loci ! j) - location (loci ! i) \<le> maxd \<and>
        pair_ld (loci ! i) (loci ! j) = Inr (r2, dprime) \<and>
        rthreshold \<le> r2 \<and> dthreshold \<le> \<bar>dprime\<bar>)"

definition index_of :: "nat \<times> nat \<times> real \<times> real \<Rightarrow> nat \<times> nat" where
  "index_of t = (fst t, fst (snd t))"

text \<open>
  \<open>scan_ldpairs_multi(loci, maxd, multi_options)\<close>. The model starts from the list
  \<open>list(merge_multi_loci(loci))\<close>: one row per locus position, holding one \<open>Locus\<close> per
  population (with empty \<open>genos\<close> where the population lacks the locus), and from
  \<open>ths\<close>, the list of \<open>(options.d, options.r)\<close> per population.

  \<open>pop_loop\<close> is the loop over \<open>izip(ths, loci[i], loci[j])\<close>. It returns the running minima
  \<open>r2\<close> and \<open>dprime\<close>, the flag \<open>good\<close> and the loop variables \<open>locus1, locus2\<close> as the
  loop left them (unbound before the first iteration).
\<close>

fun pop_loop ::
  "((real \<times> real) \<times> Locus \<times> Locus) list \<Rightarrow> real \<Rightarrow> real \<Rightarrow> (Locus \<times> Locus) option
     \<Rightarrow> error + (real \<times> real \<times> bool \<times> (Locus \<times> Locus) option)" where
  "pop_loop [] r2 dprime seen = Inr (r2, dprime, True, seen)"
| "pop_loop (((dth, rth), locus1, locus2) # rest) r2 dprime seen =
     (if genos locus1 = [] \<or> genos locus2 = []
      then pop_loop rest r2 dprime (Some (locus1, locus2))
      else
        case pair_ld locus1 locus2 of
          Inl e \<Rightarrow> Inl e
        | Inr (r2_pop, dprime_pop) \<Rightarrow>
            if r2_pop < rth \<or> \<bar>dprime_pop\<bar> < dth
            then Inr (min r2 r2_pop, min dprime dprime_pop, False, Some (locus1, locus2))
            else pop_loop rest (min r2 r2_pop) (min dprime dprime_pop) (Some (locus1, locus2)))"

text \<open>\<open>loci[i][0].location\<close>.\<close>

definition row_location :: "Locus list \<Rightarrow> error + int" where
  "row_location row = (case row of [] \<Rightarrow> Inl IndexError | l # _ \<Rightarrow> Inr (location l))"

text \<open>The body of the inner loop for one pair of rows: nothing or one yielded tuple. The
  names are those of the loop variables \<open>locus1\<close> and \<open>locus2\<close>; were they unbound, the
  \<open>yield\<close> would raise a \<open>NameError\<close>.\<close>

definition multi_pair ::
  "(real \<times> real) list \<Rightarrow> Locus list \<Rightarrow> Locus list
     \<Rightarrow> error + (string \<times> string \<times> real \<times> real) list" where
  "multi_pair ths row1 row2 =
     (case pop_loop (zip ths (zip row1 row2)) 10 10 None of
        Inl e \<Rightarrow> Inl e
      | Inr (r2, dprime, good, seen) \<Rightarrow>
          if r2 < 10 \<and> good then
            (case seen of
               None \<Rightarrow> Inl NameError
             | Some (locus1, locus2) \<Rightarrow> Inr [(name locus1, name locus2, r2, dprime)])
          else Inr [])"

function multi_inner ::
  "Locus list list \<Rightarrow> int \<Rightarrow> (real \<times> real) list \<Rightarrow> nat \<Rightarrow> int \<Rightarrow> nat
     \<Rightarrow> (nat \<times> nat \<times> string \<times> string \<times> real \<times> real) list \<times> error option" where
  "multi_inner rows maxd ths i location1 j =
     (if j < length rows then
        case row_location (rows ! j) of
          Inl e \<Rightarrow> ([], Some e)
        | Inr location2 \<Rightarrow>
            if location2 - location1 > maxd then ([], None)
            else
              case multi_pair ths (rows ! i) (rows ! j) of
                Inl e \<Rightarrow> ([], Some e)
              | Inr out \<Rightarrow>
                  (case multi_inner rows maxd ths i location1 (Suc j) of
                     (ys, err) \<Rightarrow> (map (\<lambda>t. (i, j, t)) out @ ys, err))
      else ([], None))"
  by pat_completeness auto
termination
  by (relation "measure (\<lambda>(rows, maxd, ths, i, location1, j). length rows - j)") auto

function multi_outer ::
  "Locus list list \<Rightarrow> int \<Rightarrow> (real \<times> real) list \<Rightarrow> nat
     \<Rightarrow> (nat \<times> nat \<times> string \<times> string \<times> real \<times> real) list \<times> error option" where
  "multi_outer rows maxd ths i =
     (if i < length rows then
        case row_location (rows ! i) of
          Inl e \<Rightarrow> ([], Some e)
        | Inr location1 \<Rightarrow>
            (case multi_inner rows maxd ths i location1 (Suc i) of
               (ys, Some e) \<Rightarrow> (ys, Some e)
             | (ys, None) \<Rightarrow>
                 (case multi_outer rows maxd ths (Suc i) of
                    (zs, err) \<Rightarrow> (ys @ zs, err)))
      else ([], None))"
  by pat_completeness auto
termination
  by (relation "measure (\<lambda>(rows, maxd, ths, i). length rows - i)") auto

declare multi_inner.simps [simp del] multi_outer.simps [simp del]



text \<open>The populations in which both loci of a pair of rows have genotype data, with their
  thresholds.\<close>

definition pops_with_data ::
  "(real \<times> real) list \<Rightarrow> Locus list \<Rightarrow> Locus list \<Rightarrow> ((real \<times> real) \<times> Locus \<times> Locus) list" where
  "pops_with_data ths row1 row2 =
     filter (\<lambda>(th, locus1, locus2). genos locus1 \<noteq> [] \<and> genos locus2 \<noteq> [])
       (zip ths (zip row1 row2))"

text \<open>Population \<open>p = ((dth, rth), locus1, locus2)\<close> has the estimate \<open>v = (r2, dprime)\<close>,
  and the estimate meets the population's thresholds.\<close>

definition pop_meets :: "(real \<times> real) \<times> Locus \<times> Locus \<Rightarrow> real \<times> real \<Rightarrow> bool" where
  "pop_meets p v =
     (case (p, v) of (((dth, rth), locus1, locus2), (r2_pop, dprime_pop)) \<Rightarrow>
        pair_ld locus1 locus2 = Inr (r2_pop, dprime_pop) \<and>
        rth \<le> r2_pop \<and> dth \<le> \<bar>dprime_pop\<bar>)"



text \<open>What the minld claim requires of one traced tuple \<open>(i, j, name1, name2, r2, dprime)\<close>,
  yielded for the rows \<open>i < j\<close>. The names are those of the loci of the two rows in the
  last population of \<open>izip(ths, loci[i], loci[j])\<close> (\<open>merge_multi_loci\<close> gives every locus
  of a row the name of the row). The populations with data on both loci all have estimates
  \<open>vals\<close> that meet their thresholds, there is at least one, \<open>r2\<close> is the least of the \<open>r2\<close>
  estimates and \<open>dprime\<close> is the least of the \<open>dprime\<close> estimates.\<close>

definition minld_ok ::
  "Locus list list \<Rightarrow> (real \<times> real) list
     \<Rightarrow> nat \<times> nat \<times> string \<times> string \<times> real \<times> real \<Rightarrow> bool" where
  "minld_ok rows ths t =
     (case t of (i, j, name1, name2, r2, dprime) \<Rightarrow>
        i < j \<and> j < length rows \<and>
        zip ths (zip (rows ! i) (rows ! j)) \<noteq> [] \<and>
        name1 = name (fst (snd (last (zip ths (zip (rows ! i) (rows ! j)))))) \<and>
        name2 = name (snd (snd (last (zip ths (zip (rows ! i) (rows ! j)))))) \<and>
        (\<exists>vals. vals \<noteq> [] \<and>
           list_all2 pop_meets (pops_with_data ths (rows ! i) (rows ! j)) vals \<and>
           r2 = Min (set (map fst vals)) \<and>
           dprime = Min (set (map snd vals))))"

text \<open>Three loci for the worked examples: the first is monomorphic, the third lies 4400 base
  pairs beyond the second.\<close>

definition example_locus1 :: Locus where
  "example_locus1 = \<lparr> name = ''rs1'', location = 100, maf = 0, genos = [''AA'', ''AA'', ''AA''] \<rparr>"

definition example_locus2 :: Locus where
  "example_locus2 = \<lparr> name = ''rs2'', location = 600, maf = 1/6, genos = [''CC'', ''CD'', ''CC''] \<rparr>"

definition example_locus3 :: Locus where
  "example_locus3 = \<lparr> name = ''rs3'', location = 5000, maf = 1/6, genos = [''GG'', ''GT'', ''GG''] \<rparr>"

section \<open>The bin builder\<close>

text \<open>class \<open>Includes\<close>: the constructor subtracts \<open>untyped\<close> from \<open>typed\<close>.\<close>

record Includes =
  typed :: "string list"
  untyped :: "string list"

definition Includes_init :: "string list \<Rightarrow> string list \<Rightarrow> Includes" where
  "Includes_init ty un = \<lparr> typed = filter (\<lambda>x. x \<notin> set un) (remdups ty), untyped = remdups un \<rparr>"

type_synonym binsets = "(string \<times> Bin) list"

type_synonym lddata = "((string \<times> string) \<times> (real \<times> real)) list"

type_synonym locusmap = "(string \<times> Locus) list"

text \<open>A loop body that may raise, run over a list: the first exception ends the loop.\<close>

fun fold_err :: "('a \<Rightarrow> 's \<Rightarrow> error + 's) \<Rightarrow> 'a list \<Rightarrow> 's \<Rightarrow> error + 's" where
  "fold_err f [] s = Inr s"
| "fold_err f (x # xs) s = (case f x s of Inl e \<Rightarrow> Inl e | Inr s' \<Rightarrow> fold_err f xs s')"

text \<open>\<open>if lname not in binsets: binsets[lname] = Bin([lname], loci[lname].maf)\<close>.\<close>

definition ensure_bin :: "locusmap \<Rightarrow> string \<Rightarrow> binsets \<Rightarrow> error + binsets" where
  "ensure_bin loci lname binsets =
     (if map_of binsets lname \<noteq> None then Inr binsets
      else case dict_lookup loci lname of
        Inl e \<Rightarrow> Inl e
      | Inr L \<Rightarrow> Inr (AList.update lname (Bin_init [lname] (Some (Locus.maf L)) NORMAL None) binsets))"

text \<open>A method call on the object \<open>binsets[lname]\<close> that changes it in place.\<close>

definition bin_update :: "binsets \<Rightarrow> string \<Rightarrow> (Bin \<Rightarrow> Bin) \<Rightarrow> error + binsets" where
  "bin_update binsets lname f =
     (case map_of binsets lname of
        None \<Rightarrow> Inl KeyError
      | Some b \<Rightarrow> Inr (AList.update lname (f b) binsets))"

text \<open>The body of the loop of \<open>build_binsets\<close> over the LD pairs.\<close>

definition add_pair ::
  "locusmap \<Rightarrow> string \<times> string \<times> real \<times> real \<Rightarrow> binsets \<times> lddata \<Rightarrow> error + (binsets \<times> lddata)" where
  "add_pair loci pair st =
     (case (pair, st) of ((lname1, lname2, r2, dprime), (binsets, lddata)) \<Rightarrow>
        case ensure_bin loci lname1 binsets of Inl e \<Rightarrow> Inl e | Inr bs1 \<Rightarrow>
        case ensure_bin loci lname2 bs1 of Inl e \<Rightarrow> Inl e | Inr bs2 \<Rightarrow>
        case dict_lookup loci lname2 of Inl e \<Rightarrow> Inl e | Inr L2 \<Rightarrow>
        case bin_update bs2 lname1 (Bin_add lname2 (Locus.maf L2)) of Inl e \<Rightarrow> Inl e | Inr bs3 \<Rightarrow>
        case dict_lookup loci lname1 of Inl e \<Rightarrow> Inl e | Inr L1 \<Rightarrow>
        case bin_update bs3 lname2 (Bin_add lname1 (Locus.maf L1)) of Inl e \<Rightarrow> Inl e | Inr bs4 \<Rightarrow>
          Inr (bs4, AList.update (lname1, lname2) (r2, dprime) lddata))"

text \<open>\<open>binsets[lname].disposition = d\<close> for the names of a list that are in \<open>binsets\<close>.\<close>

definition set_disposition :: "int \<Rightarrow> string \<Rightarrow> binsets \<Rightarrow> binsets" where
  "set_disposition dsp lname binsets =
     (case map_of binsets lname of
        None \<Rightarrow> binsets
      | Some b \<Rightarrow> AList.update lname (b\<lparr> Bin.disposition := dsp \<rparr>) binsets)"

text \<open>The loop over \<open>binsets.iteritems()\<close> when design scores are given.\<close>

definition undesignable :: "(string \<times> real) list \<Rightarrow> string \<Rightarrow> bool" where
  "undesignable designscores lname = (dict_get designscores lname 0 < epsilon)"

definition exclude_undesignable :: "(string \<times> real) list \<Rightarrow> binsets \<Rightarrow> binsets" where
  "exclude_undesignable designscores binsets =
     map (\<lambda>(lname, b). if undesignable designscores lname
                        then (lname, b\<lparr> Bin.disposition := EXCLUDE \<rparr>) else (lname, b)) binsets"

text \<open>The loop over \<open>includes.untyped\<close>: mark the bin and remove the other untyped obligates
  from it.\<close>

definition remove_member :: "locusmap \<Rightarrow> string \<Rightarrow> string \<Rightarrow> binsets \<Rightarrow> error + binsets" where
  "remove_member loci lname lname2 binsets =
     (if lname = lname2 then Inr binsets
      else case dict_lookup binsets lname of Inl e \<Rightarrow> Inl e | Inr b \<Rightarrow>
           case dict_lookup loci lname2 of Inl e \<Rightarrow> Inl e | Inr L2 \<Rightarrow>
           case Bin_remove lname2 (Locus.maf L2) b of
             (b', Some e) \<Rightarrow> Inl e
           | (b', None) \<Rightarrow> Inr (AList.update lname b' binsets))"

definition include_untyped :: "locusmap \<Rightarrow> string list \<Rightarrow> string \<Rightarrow> binsets \<Rightarrow> error + binsets" where
  "include_untyped loci un lname binsets =
     (case map_of binsets lname of
        None \<Rightarrow> Inr binsets
      | Some b \<Rightarrow>
          fold_err (remove_member loci lname) (filter (\<lambda>x. x \<in> set un) (members b))
            (AList.update lname (b\<lparr> Bin.disposition := INCLUDE_UNTYPED \<rparr>) binsets))"

text \<open>\<open>build_binsets(loci, ldpairs, includes, exclude, designscores)\<close> returns
  \<open>(binsets, lddata)\<close>; the set \<open>exclude\<close>, which it extends in place, is the third
  component here. \<open>loci\<close> is the locus index as it stands when the pairs have been read.\<close>

definition build_binsets ::
  "locusmap \<Rightarrow> (string \<times> string \<times> real \<times> real) list list \<Rightarrow> Includes \<Rightarrow> string list
     \<Rightarrow> (string \<times> real) list \<Rightarrow> error + (binsets \<times> lddata \<times> string list)" where
  "build_binsets loci ldpairs includes exclude designscores =
     (case fold_err (add_pair loci) (concat ldpairs) ([], []) of Inl e \<Rightarrow> Inl e
      | Inr (bs1, lddata) \<Rightarrow>
     case fold_err (ensure_bin loci) (map fst loci) bs1 of Inl e \<Rightarrow> Inl e
      | Inr bs2 \<Rightarrow>
       let bs3 = fold (set_disposition EXCLUDE) exclude bs2;
           bs4 = (if designscores = [] then bs3 else exclude_undesignable designscores bs3);
           exclude' = (if designscores = [] then exclude
                       else fold set_add (filter (undesignable designscores) (map fst bs3)) exclude)
       in case fold_err (include_untyped loci (untyped includes)) (untyped includes) bs4 of
            Inl e \<Rightarrow> Inl e
          | Inr bs5 \<Rightarrow>
              Inr (fold (set_disposition INCLUDE_TYPED) (typed includes) bs5, lddata, exclude'))"

section \<open>The priority-driven binner\<close>

text \<open>\<open>get_tags_required_function(options)\<close> returns \<open>None\<close> or one of two functions of the
  bin size: \<open>lambda n: min(int(n//options.locipertag)+1, n)\<close> or
  \<open>lambda n: int(ceil(log(n+1)/l))\<close> with \<open>l = log(options.loglocipertag)\<close>. An option that
  is \<open>None\<close> or zero is false. \<open>math.log\<close> raises \<open>ValueError\<close> on a negative argument; the
  division by \<open>l\<close> raises \<open>ZeroDivisionError\<close> for a base of 1 when the function is called.\<close>

definition loci_per_tag :: "int \<Rightarrow> nat \<Rightarrow> error + int" where
  "loci_per_tag L n = Inr (min (int n div L + 1) (int n))"

definition log_loci_per_tag :: "real \<Rightarrow> nat \<Rightarrow> error + int" where
  "log_loci_per_tag B n =
     (if ln B = 0 then Inl ZeroDivisionError else Inr \<lceil>ln (real n + 1) / ln B\<rceil>)"

definition get_tags_required_function :: "options \<Rightarrow> error + (nat \<Rightarrow> error + int) option" where
  "get_tags_required_function opts =
     (if locipertag opts \<noteq> None \<and> locipertag opts \<noteq> Some 0
      then Inr (Some (loci_per_tag (the (locipertag opts))))
      else if loglocipertag opts \<noteq> None \<and> loglocipertag opts \<noteq> Some 0
      then (if the (loglocipertag opts) < 0 then Inl ValueError
            else Inr (Some (log_loci_per_tag (the (loglocipertag opts)))))
      else Inr None)"

text \<open>\<open>can_tag(bin, reference)\<close>.\<close>

definition can_tag :: "Bin \<Rightarrow> Bin \<Rightarrow> bool" where
  "can_tag bin reference =
     ((Bin.disposition bin \<noteq> EXCLUDE \<or> Bin.disposition reference = EXCLUDE) \<and>
      set (members reference) \<subseteq> set (members bin))"

text \<open>\<open>[lname for lname in bin if can_tag(binsets[lname], bin)]\<close>.\<close>

fun covering_tags :: "binsets \<Rightarrow> Bin \<Rightarrow> string list \<Rightarrow> error + string list" where
  "covering_tags binsets bin [] = Inr []"
| "covering_tags binsets bin (lname # rest) =
     (case dict_lookup binsets lname of Inl e \<Rightarrow> Inl e | Inr b \<Rightarrow>
      case covering_tags binsets bin rest of Inl e \<Rightarrow> Inl e | Inr ts \<Rightarrow>
        Inr (if can_tag b bin then lname # ts else ts))"

definition must_split_bin ::
  "Bin \<Rightarrow> binsets \<Rightarrow> (nat \<Rightarrow> error + int) option \<Rightarrow> error + bool" where
  "must_split_bin bin binsets get_tags_required =
     (case get_tags_required of
        None \<Rightarrow> Inr False
      | Some f \<Rightarrow>
          (case f (length (members bin)) of Inl e \<Rightarrow> Inl e | Inr required \<Rightarrow>
             if required = 1 then Inr False
             else case covering_tags binsets bin (members bin) of Inl e \<Rightarrow> Inl e | Inr ts \<Rightarrow>
               Inr (int (length ts) < required \<and> required \<le> int (length (members bin)))))"

text \<open>\<open>NaiveBinSequence.peek\<close>: a linear scan that keeps the first bin of least priority
  tuple. The tuples \<open>(disposition, -len, -maf)\<close> compare lexicographically.\<close>

fun peek_loop :: "binsets \<Rightarrow> string \<Rightarrow> int \<times> int \<times> real \<Rightarrow> string" where
  "peek_loop [] lname prio = lname"
| "peek_loop ((current_lname, bin) # rest) lname prio =
     (if Bin_priority bin < prio then peek_loop rest current_lname (Bin_priority bin)
      else peek_loop rest lname prio)"

definition peek :: "binsets \<Rightarrow> error + string" where
  "peek binsets =
     (case binsets of
        [] \<Rightarrow> Inl StopIteration
      | (lname, bin) # rest \<Rightarrow> Inr (peek_loop rest lname (Bin_priority bin)))"

text \<open>\<open>reduce_bin(other_locus, taken_locus, maf)\<close>.\<close>

definition reduce_bin :: "binsets \<Rightarrow> string \<Rightarrow> string \<Rightarrow> real \<Rightarrow> binsets" where
  "reduce_bin binsets other_locus taken_locus m =
     (case map_of binsets other_locus of
        None \<Rightarrow> binsets
      | Some b \<Rightarrow> AList.update other_locus (Bin_discard taken_locus m b) binsets)"

text \<open>The loop of \<open>split_bin\<close> that collects \<open>(-covered, r2, lname)\<close> for the members of the
  bin other than the reference locus.\<close>

fun split_candidates ::
  "binsets \<Rightarrow> lddata \<Rightarrow> string \<Rightarrow> string list \<Rightarrow> error + (int \<times> real \<times> string) list" where
  "split_candidates binsets lddata ref_lname [] = Inr []"
| "split_candidates binsets lddata ref_lname (lname # rest) =
     (if lname = ref_lname then split_candidates binsets lddata ref_lname rest
      else
        let covered = (case map_of binsets lname of None \<Rightarrow> 0 | Some b \<Rightarrow> length (members b));
            key = (if map_of lddata (ref_lname, lname) = None then (lname, ref_lname)
                   else (ref_lname, lname))
        in case dict_lookup lddata key of Inl e \<Rightarrow> Inl e | Inr (r2, dprime) \<Rightarrow>
           case split_candidates binsets lddata ref_lname rest of Inl e \<Rightarrow> Inl e | Inr cands \<Rightarrow>
             Inr ((- int covered, r2, lname) # cands))"

text \<open>\<open>split_bin(ref_lname, bin)\<close>: \<open>ld.sort()\<close>, then \<open>ld[0]\<close> is removed from the bin of
  the reference locus, and the reference locus from its bin.\<close>

definition split_bin ::
  "locusmap \<Rightarrow> lddata \<Rightarrow> binsets \<Rightarrow> string \<Rightarrow> Bin \<Rightarrow> error + binsets" where
  "split_bin loci lddata binsets ref_lname bin =
     (case split_candidates binsets lddata ref_lname (members bin) of Inl e \<Rightarrow> Inl e | Inr cands \<Rightarrow>
      case sort cands of
        [] \<Rightarrow> Inl IndexError
      | (covered, r2, lname) # _ \<Rightarrow>
          (case dict_lookup loci lname of Inl e \<Rightarrow> Inl e | Inr L \<Rightarrow>
           case dict_lookup loci ref_lname of Inl e \<Rightarrow> Inl e | Inr R \<Rightarrow>
             Inr (reduce_bin (reduce_bin binsets ref_lname lname (Locus.maf L))
                    lname ref_lname (Locus.maf R))))"

text \<open>The number of memberships in all candidate bins: every split removes one.\<close>

definition total_members :: "binsets \<Rightarrow> nat" where
  "total_members binsets = sum_list (map (\<lambda>(lname, b). length (members b)) binsets)"

lemma total_members_update:
  "map_of binsets k = Some b \<Longrightarrow>
     total_members (AList.update k b' binsets) + length (members b)
       = total_members binsets + length (members b')"
  by (induction binsets) (auto simp: total_members_def)

lemma length_discard_le: "length (members (Bin_discard t m b)) \<le> length (members b)"
  by (simp add: Bin_discard_def)

lemma length_discard_less:
  "t \<in> set (members b) \<Longrightarrow> length (members (Bin_discard t m b)) < length (members b)"
  by (simp add: Bin_discard_def length_removeAll_less)

lemma total_members_reduce_le: "total_members (reduce_bin binsets other t m) \<le> total_members binsets"
proof (cases "map_of binsets other")
  case None
  then show ?thesis by (simp add: reduce_bin_def)
next
  case (Some b)
  from total_members_update [OF Some, of "Bin_discard t m b"] length_discard_le [of t m b] Some
  show ?thesis by (simp add: reduce_bin_def)
qed

lemma total_members_reduce_less:
  assumes "map_of binsets other = Some b" and "t \<in> set (members b)"
  shows "total_members (reduce_bin binsets other t m) < total_members binsets"
  using total_members_update [OF assms(1), of "Bin_discard t m b"]
    length_discard_less [OF assms(2), of m] assms(1)
  by (simp add: reduce_bin_def)

lemma split_candidates_members:
  "split_candidates binsets lddata ref_lname ms = Inr cands \<Longrightarrow> c \<in> set cands
     \<Longrightarrow> snd (snd c) \<in> set ms \<and> snd (snd c) \<noteq> ref_lname"
proof (induction ms arbitrary: cands)
  case Nil
  then show ?case by simp
next
  case (Cons lname rest)
  show ?case
  proof (cases "lname = ref_lname")
    case True
    with Cons.prems have "split_candidates binsets lddata ref_lname rest = Inr cands" by simp
    from Cons.IH [OF this Cons.prems(2)] show ?thesis by simp
  next
    case False
    with Cons.prems(1) obtain r2 dprime covered cands' where
      rest: "split_candidates binsets lddata ref_lname rest = Inr cands'"
      and cands: "cands = (covered, r2, lname) # cands'"
      by (auto simp: Let_def split: sum.splits)
    show ?thesis
    proof (cases "c \<in> set cands'")
      case True
      from Cons.IH [OF rest True] show ?thesis by simp
    next
      case notin: False
      with Cons.prems(2) cands have "c = (covered, r2, lname)" by simp
      with False show ?thesis by simp
    qed
  qed
qed

lemma split_bin_decreases:
  assumes "map_of binsets ref_lname = Some bin"
    and "split_bin loci lddata binsets ref_lname bin = Inr binsets'"
  shows "total_members binsets' < total_members binsets"
proof (cases "split_candidates binsets lddata ref_lname (members bin)")
  case (Inl e)
  with assms(2) show ?thesis by (simp add: split_bin_def)
next
  case c: (Inr cands)
  show ?thesis
  proof (cases "sort cands")
    case Nil
    with assms(2) c show ?thesis by (simp add: split_bin_def)
  next
    case (Cons first tl_cands)
    obtain covered r2 lname where first: "first = (covered, r2, lname)"
      by (cases first)
    have "first \<in> set (sort cands)" using Cons by simp
    then have "first \<in> set cands" by simp
    from split_candidates_members [OF c this] first
    have mem: "lname \<in> set (members bin)" by simp
    show ?thesis
    proof (cases "dict_lookup loci lname")
      case (Inl e)
      with assms(2) c Cons first show ?thesis by (simp add: split_bin_def)
    next
      case L: (Inr L)
      show ?thesis
      proof (cases "dict_lookup loci ref_lname")
        case (Inl e)
        with assms(2) c Cons first L show ?thesis by (simp add: split_bin_def)
      next
        case R: (Inr R)
        from assms(2) c Cons first L R
        have b: "binsets' = reduce_bin (reduce_bin binsets ref_lname lname (Locus.maf L))
                  lname ref_lname (Locus.maf R)"
          by (simp add: split_bin_def)
        from total_members_reduce_less [OF assms(1) mem, of "Locus.maf L"]
          total_members_reduce_le [of "reduce_bin binsets ref_lname lname (Locus.maf L)"
            lname ref_lname "Locus.maf R"]
        show ?thesis unfolding b by linarith
      qed
    qed
  qed
qed

text \<open>The loop \<open>while 1\<close> of \<open>pop\<close>: peek, test, split, until the best bin need not be
  split. It returns the reference locus, its bin and the candidate bins after the splits.\<close>

function split_loop ::
  "locusmap \<Rightarrow> lddata \<Rightarrow> (nat \<Rightarrow> error + int) option \<Rightarrow> binsets
     \<Rightarrow> error + (string \<times> Bin \<times> binsets)" where
  "split_loop loci lddata get_tags_required binsets =
     (case peek binsets of Inl e \<Rightarrow> Inl e | Inr ref_lname \<Rightarrow>
      case map_of binsets ref_lname of None \<Rightarrow> Inl KeyError | Some largest \<Rightarrow>
      case must_split_bin largest binsets get_tags_required of Inl e \<Rightarrow> Inl e | Inr split \<Rightarrow>
        if \<not> split then Inr (ref_lname, largest, binsets)
        else case split_bin loci lddata binsets ref_lname largest of Inl e \<Rightarrow> Inl e
             | Inr binsets' \<Rightarrow> split_loop loci lddata get_tags_required binsets')"
  by pat_completeness auto
termination
proof (relation "measure (\<lambda>(loci, lddata, get_tags_required, binsets). total_members binsets)")
  show "wf (measure (\<lambda>(loci, lddata, get_tags_required, binsets). total_members binsets))"
    by simp
next
  fix loci :: locusmap and lddata :: lddata and get_tags_required binsets ref_lname largest
    split binsets'
  assume "map_of binsets ref_lname = Some largest"
    and "split_bin loci lddata binsets ref_lname largest = Inr binsets'"
  then have "total_members binsets' < total_members binsets"
    by (rule split_bin_decreases)
  then show "((loci, lddata, get_tags_required, binsets'), loci, lddata, get_tags_required, binsets)
      \<in> measure (\<lambda>(loci, lddata, get_tags_required, binsets). total_members binsets)"
    by simp
qed

declare split_loop.simps [simp del]

text \<open>The second loop of \<open>pop\<close>: every member of the chosen bin is popped from \<open>binsets\<close>
  and withdrawn from the candidate bins (other than those of the chosen bin's members)
  that hold it. \<open>bins\<close> collects the popped bins. Only bins of loci outside the chosen
  bin are changed here, and a bin never loses its own locus, so neither \<open>largest\<close> nor a
  popped bin changes through an alias while the loop runs.\<close>

fun withdraw ::
  "locusmap \<Rightarrow> Bin \<Rightarrow> string list \<Rightarrow> binsets \<Rightarrow> binsets \<Rightarrow> error + (binsets \<times> binsets)" where
  "withdraw loci largest [] binsets bins = Inr (binsets, bins)"
| "withdraw loci largest (lname # rest) binsets bins =
     (case dict_pop binsets lname of Inl e \<Rightarrow> Inl e | Inr (bin, binsets1) \<Rightarrow>
      case dict_lookup loci lname of Inl e \<Rightarrow> Inl e | Inr L \<Rightarrow>
        withdraw loci largest rest
          (fold (\<lambda>lname2 bs. reduce_bin bs lname2 lname (Locus.maf L))
             (filter (\<lambda>x. x \<notin> set (members largest)) (members bin)) binsets1)
          (AList.update lname bin bins))"

text \<open>\<open>NaiveBinSequence.pop\<close> returns \<open>(ref_lname, largest, bins)\<close>; the fourth component is
  \<open>self.binsets\<close> after the call.\<close>

definition pop ::
  "locusmap \<Rightarrow> lddata \<Rightarrow> (nat \<Rightarrow> error + int) option \<Rightarrow> binsets
     \<Rightarrow> error + (string \<times> Bin \<times> binsets \<times> binsets)" where
  "pop loci lddata get_tags_required binsets =
     (if binsets = [] then Inl StopIteration
      else
        case split_loop loci lddata get_tags_required binsets of Inl e \<Rightarrow> Inl e
        | Inr (ref_lname, largest, binsets1) \<Rightarrow>
            (case withdraw loci largest (members largest) binsets1 [] of Inl e \<Rightarrow> Inl e
             | Inr (binsets2, bins) \<Rightarrow> Inr (ref_lname, largest, bins, binsets2)))"

text \<open>\<open>pair_generator(bins)\<close>: the pairs \<open>(bins[i], bins[j])\<close> for \<open>j < i\<close>.\<close>

definition pair_generator :: "'a list \<Rightarrow> ('a \<times> 'a) list" where
  "pair_generator xs =
     concat (map (\<lambda>i. map (\<lambda>j. (xs ! i, xs ! j)) [0..<i]) [0..<length xs])"

text \<open>The last loop of \<open>build_result\<close>: each intra-bin pair found in \<open>lddata\<close> (in either
  order) is popped from it and appended to the result's \<open>ld\<close>.\<close>

fun take_ld ::
  "(string \<times> string) list \<Rightarrow> lddata \<Rightarrow> (string \<times> string \<times> real \<times> real) list
     \<Rightarrow> (string \<times> string \<times> real \<times> real) list \<times> lddata" where
  "take_ld [] lddata acc = (acc, lddata)"
| "take_ld ((lname1, lname2) # rest) lddata acc =
     (let key = (if map_of lddata (lname1, lname2) = None then (lname2, lname1)
                 else (lname1, lname2))
      in case map_of lddata key of
           None \<Rightarrow> take_ld rest lddata acc
         | Some (r2, dprime) \<Rightarrow>
             take_ld rest (AList.delete key lddata) (acc @ [(fst key, snd key, r2, dprime)]))"

text \<open>The loop of \<open>build_result\<close> over \<open>bins.iteritems()\<close>: tags, others and the running
  \<open>maxcovered\<close>.\<close>

fun classify ::
  "Bin \<Rightarrow> binsets \<Rightarrow> string list \<times> string list \<times> nat \<Rightarrow> string list \<times> string list \<times> nat" where
  "classify largest [] acc = acc"
| "classify largest ((lname, bin) # rest) (ts, os, mc) =
     (if can_tag bin largest
      then classify largest rest
             (ts @ [lname], os,
              if Bin.disposition largest \<notin> {INCLUDE_TYPED, INCLUDE_UNTYPED}
              then max mc (Bin.maxcovered bin) else mc)
      else classify largest rest (ts, os @ [lname], mc))"

definition result_disposition :: "int \<Rightarrow> string" where
  "result_disposition dsp =
     (if dsp = INCLUDE_UNTYPED then ''obligate-untyped''
      else if dsp = INCLUDE_TYPED then ''obligate-typed''
      else if dsp = EXCLUDE then ''obligate-exclude''
      else ''maximal-bin'')"

text \<open>\<open>build_result(lname, largest, bins, lddata, includes, get_tags_required)\<close> returns the
  result and \<open>lddata\<close> after the pops. \<open>binnum\<close> is set by the caller; 0 stands for unset.\<close>

definition build_result ::
  "string \<Rightarrow> Bin \<Rightarrow> binsets \<Rightarrow> lddata \<Rightarrow> Includes \<Rightarrow> (nat \<Rightarrow> error + int) option
     \<Rightarrow> error + (BinResult \<times> lddata)" where
  "build_result lname largest bins lddata includes get_tags_required =
     (case (case get_tags_required of None \<Rightarrow> Inr 1 | Some f \<Rightarrow> f (length (members largest))) of
        Inl e \<Rightarrow> Inl e
      | Inr required \<Rightarrow>
     case Bin_average_maf largest of Inl e \<Rightarrow> Inl e | Inr avg \<Rightarrow>
     case classify largest bins ([], [], Bin.maxcovered largest) of (ts, os, mc) \<Rightarrow>
       if \<not> (int (length ts) \<ge> required) then Inl AssertionError
       else
         case take_ld (pair_generator (members largest)) lddata
                (map (\<lambda>t. (t, t, 1, 1)) ts) of
           (result_ld, lddata') \<Rightarrow>
             Inr (\<lparr> binnum = 0, tags = ts, others = os, tags_required = required,
                    average_maf = avg,
                    include_tag =
                      (if Bin.disposition largest \<in> {INCLUDE_TYPED, INCLUDE_UNTYPED}
                       then Some lname else None),
                    ld = result_ld,
                    disposition = result_disposition (Bin.disposition largest),
                    maxcovered = mc,
                    recommended_tags = [],
                    include_typed = filter (\<lambda>x. x \<in> set (typed includes)) (members largest) \<rparr>,
                  lddata'))"

lemma keys_reduce_bin [simp]: "map fst (reduce_bin binsets other t m) = map fst binsets"
proof (cases "map_of binsets other")
  case None
  then show ?thesis by (simp add: reduce_bin_def)
next
  case (Some b)
  then have "other \<in> fst ` set binsets" by (rule map_of_SomeD [THEN imageI, of _ _ _ fst, simplified])
  then show ?thesis using Some by (simp add: reduce_bin_def update_keys)
qed

lemma keys_fold_reduce_bin [simp]:
  "map fst (fold (\<lambda>lname2 bs. reduce_bin bs lname2 t m) xs binsets) = map fst binsets"
  by (induction xs arbitrary: binsets) simp_all

lemma length_delete_less:
  "map_of al k = Some v \<Longrightarrow> length (AList.delete k al) < length al"
  by (induction al) (auto simp: AList.delete_eq less_Suc_eq_le split: if_splits)

lemma withdraw_length:
  "withdraw loci largest ms binsets bins = Inr (binsets', bins') \<Longrightarrow>
     length binsets' \<le> length binsets \<and> (ms \<noteq> [] \<longrightarrow> length binsets' < length binsets)"
proof (induction ms arbitrary: binsets bins)
  case Nil
  then show ?case by simp
next
  case (Cons lname rest)
  from Cons.prems obtain bin binsets1 L where
    p: "dict_pop binsets lname = Inr (bin, binsets1)"
    and l: "dict_lookup loci lname = Inr L"
    and w: "withdraw loci largest rest
              (fold (\<lambda>lname2 bs. reduce_bin bs lname2 lname (Locus.maf L))
                 (filter (\<lambda>x. x \<notin> set (members largest)) (members bin)) binsets1)
              (AList.update lname bin bins) = Inr (binsets', bins')"
    by (simp split: sum.splits prod.splits)
  from p have lt: "length binsets1 < length binsets"
    by (auto simp: dict_pop_def length_delete_less split: option.splits)
  have "length (fold (\<lambda>lname2 bs. reduce_bin bs lname2 lname (Locus.maf L))
                 (filter (\<lambda>x. x \<notin> set (members largest)) (members bin)) binsets1)
          = length binsets1"
    using keys_fold_reduce_bin [of lname "Locus.maf L" _ binsets1]
    by (metis length_map)
  with Cons.IH [OF w] lt show ?case by simp
qed

lemma keys_split_bin: "split_bin loci lddata binsets ref_lname bin = Inr binsets'
    \<Longrightarrow> map fst binsets' = map fst binsets"
  by (auto simp: split_bin_def split: sum.splits list.splits)

lemma keys_split_loop:
  "split_loop loci lddata gtr binsets = Inr (ref_lname, largest, binsets')
     \<Longrightarrow> map fst binsets' = map fst binsets"
proof (induction loci lddata gtr binsets rule: split_loop.induct)
  case (1 loci lddata gtr binsets)
  from "1.prems" obtain r where pk: "peek binsets = Inr r"
    by (subst (asm) split_loop.simps) (simp split: sum.splits)
  from "1.prems" pk obtain lg where lk: "map_of binsets r = Some lg"
    by (subst (asm) split_loop.simps) (simp split: option.splits)
  from "1.prems" pk lk obtain sp where ms: "must_split_bin lg binsets gtr = Inr sp"
    by (subst (asm) split_loop.simps) (simp split: sum.splits)
  show ?case
  proof (cases sp)
    case False
    with "1.prems" pk lk ms show ?thesis
      by (subst (asm) split_loop.simps) simp
  next
    case True
    with "1.prems" pk lk ms obtain bs1 where
      sb: "split_bin loci lddata binsets r lg = Inr bs1"
      and rec: "split_loop loci lddata gtr bs1 = Inr (ref_lname, largest, binsets')"
      by (subst (asm) split_loop.simps) (simp split: sum.splits)
    from "1.IH" [OF pk lk ms _ sb rec] True keys_split_bin [OF sb]
    show ?thesis by simp
  qed
qed

lemma pop_length:
  assumes "pop loci lddata gtr binsets = Inr (ref_lname, largest, bins, binsets')"
  shows "length binsets' \<le> length binsets"
    and "members largest \<noteq> [] \<Longrightarrow> length binsets' < length binsets"
proof -
  from assms obtain bs1 where
    sl: "split_loop loci lddata gtr binsets = Inr (ref_lname, largest, bs1)"
    and w: "withdraw loci largest (members largest) bs1 [] = Inr (binsets', bins)"
    by (auto simp: pop_def split: if_splits sum.splits)
  from keys_split_loop [OF sl] have "length bs1 = length binsets"
    by (metis length_map)
  with withdraw_length [OF w]
  show "length binsets' \<le> length binsets"
    and "members largest \<noteq> [] \<Longrightarrow> length binsets' < length binsets"
    by simp_all
qed

lemma build_result_nonempty:
  "build_result lname largest bins lddata includes gtr = Inr res \<Longrightarrow> members largest \<noteq> []"
  by (auto simp: build_result_def Bin_average_maf_def split: sum.splits if_splits)

text \<open>\<open>binner\<close>: the generator runs \<open>pop\<close> and \<open>build_result\<close> in turn until \<open>binsets\<close> is
  empty. The model returns the list of all results of a run that ends without an
  exception, and the exception otherwise.\<close>

function binner_loop ::
  "locusmap \<Rightarrow> Includes \<Rightarrow> (nat \<Rightarrow> error + int) option \<Rightarrow> binsets \<Rightarrow> lddata
     \<Rightarrow> error + BinResult list" where
  "binner_loop loci includes get_tags_required binsets lddata =
     (if binsets = [] then Inr []
      else
        case pop loci lddata get_tags_required binsets of Inl e \<Rightarrow> Inl e
        | Inr (lname, largest, bins, binsets') \<Rightarrow>
            (case build_result lname largest bins lddata includes get_tags_required of
               Inl e \<Rightarrow> Inl e
             | Inr (result, lddata') \<Rightarrow>
                 (case binner_loop loci includes get_tags_required binsets' lddata' of
                    Inl e \<Rightarrow> Inl e
                  | Inr results \<Rightarrow> Inr (result # results))))"
  by pat_completeness auto
termination
proof (relation "measure (\<lambda>(loci, includes, get_tags_required, binsets, lddata). length binsets)")
  show "wf (measure (\<lambda>(loci, includes, get_tags_required, binsets, lddata). length binsets))"
    by simp
next
  fix loci :: locusmap and incl :: Includes and get_tags_required binsets
    and lddata :: lddata and popped lname rest1 largest rest2 bins binsets' built result lddata'
  assume "pop loci lddata get_tags_required binsets = Inr popped"
    and "(lname, rest1) = popped" and "(largest, rest2) = rest1" and "(bins, binsets') = rest2"
    and "build_result lname largest bins lddata incl get_tags_required = Inr built"
  then have "pop loci lddata get_tags_required binsets = Inr (lname, largest, bins, binsets')"
    and "members largest \<noteq> []"
    using build_result_nonempty by auto
  then have "length binsets' < length binsets"
    by (rule pop_length(2))
  then show "((loci, incl, get_tags_required, binsets', lddata'),
              loci, incl, get_tags_required, binsets, lddata)
      \<in> measure (\<lambda>(loci, includes, get_tags_required, binsets, lddata). length binsets)"
    by simp
qed

declare binner_loop.simps [simp del]

definition binner ::
  "locusmap \<Rightarrow> binsets \<Rightarrow> lddata \<Rightarrow> Includes \<Rightarrow> (nat \<Rightarrow> error + int) option
     \<Rightarrow> error + BinResult list" where
  "binner loci binsets lddata includes get_tags_required =
     binner_loop loci includes get_tags_required binsets lddata"

text \<open>The state of the keys while \<open>build_binsets\<close> runs: no duplicates, all in the locus
  index.\<close>

definition keys_ok :: "locusmap \<Rightarrow> binsets \<Rightarrow> bool" where
  "keys_ok loci binsets = (distinct (map fst binsets) \<and> set (map fst binsets) \<subseteq> set (map fst loci))"

text \<open>The loci of a result: its tags followed by its others.\<close>

definition result_loci :: "BinResult \<Rightarrow> string list" where
  "result_loci r = tags r @ others r"

text \<open>A locus index of three loci with one LD pair, the candidate bins \<open>build_binsets\<close>
  makes of it, and the two results the binner emits for them.\<close>

definition example_loci :: locusmap where
  "example_loci = [(''rs1'', example_locus1), (''rs2'', example_locus2), (''rs3'', example_locus3)]"

definition example_binsets :: binsets where
  "example_binsets =
     [(''rs1'', \<lparr> members = [''rs1'', ''rs2''], maf = 1 / 6, disposition = 0, maxcovered = 2 \<rparr>),
      (''rs2'', \<lparr> members = [''rs2'', ''rs1''], maf = 1 / 6, disposition = 0, maxcovered = 2 \<rparr>),
      (''rs3'', \<lparr> members = [''rs3''], maf = 1 / 6, disposition = 0, maxcovered = 1 \<rparr>)]"

definition example_results :: "BinResult list" where
  "example_results =
     [\<lparr> binnum = 0, tags = [''rs1'', ''rs2''], others = [], tags_required = 1,
        average_maf = 1 / 12, include_tag = None,
        ld = [(''rs1'', ''rs1'', 1, 1), (''rs2'', ''rs2'', 1, 1), (''rs1'', ''rs2'', 9 / 10, 1)],
        disposition = ''maximal-bin'', maxcovered = 2, recommended_tags = [],
        include_typed = [] \<rparr>,
      \<lparr> binnum = 0, tags = [''rs3''], others = [], tags_required = 1,
        average_maf = 1 / 6, include_tag = None, ld = [(''rs3'', ''rs3'', 1, 1)],
        disposition = ''maximal-bin'', maxcovered = 1, recommended_tags = [],
        include_typed = [] \<rparr>]"

section \<open>class TagSelector\<close>

text \<open>\<open>scores\<close> is the dict of design scores (locus name to score), \<open>weights\<close> the dict built
  by \<open>build_tag_criteria\<close> (criterion name to weight).\<close>

record TagSelector =
  scores :: "(string \<times> real) list"
  weights :: "(string \<times> real) list"

text \<open>\<open>str.lower()\<close> on the ASCII letters.\<close>

definition lower_char :: "char \<Rightarrow> char" where
  "lower_char c =
     (case map_of (zip ''ABCDEFGHIJKLMNOPQRSTUVWXYZ'' ''abcdefghijklmnopqrstuvwxyz'') c of
        None \<Rightarrow> c | Some l \<Rightarrow> l)"

text \<open>The four lexically scoped weighting functions of \<open>build_weights\<close>;
  \<open>locals().get(method.lower(), None)\<close> finds one of them or something that is not callable.\<close>

datatype criterion = MaxSnp | AvgSnp | MaxTag | AvgTag

definition find_criterion :: "string \<Rightarrow> criterion option" where
  "find_criterion method =
     (let m = map lower_char method in
      if m = ''maxsnp'' then Some MaxSnp
      else if m = ''avgsnp'' then Some AvgSnp
      else if m = ''maxtag'' then Some MaxTag
      else if m = ''avgtag'' then Some AvgTag
      else None)"

text \<open>One call \<open>func()\<close> with the closure variables \<open>lname1\<close>, \<open>lname2\<close>, \<open>r2\<close> and \<open>w\<close>.\<close>

definition maxsnp :: "string \<Rightarrow> real \<Rightarrow> (string \<times> real) list \<Rightarrow> (string \<times> real) list" where
  "maxsnp lname1 r2 w = AList.update lname1 (min (dict_get w lname1 1) r2) w"

definition avgsnp :: "string \<Rightarrow> real \<Rightarrow> (string \<times> real) list \<Rightarrow> (string \<times> real) list" where
  "avgsnp lname1 r2 w = AList.update lname1 (dict_get w lname1 0 + r2) w"

fun apply_criterion ::
  "criterion \<Rightarrow> string list \<Rightarrow> string \<Rightarrow> string \<Rightarrow> real \<Rightarrow> (string \<times> real) list \<Rightarrow> (string \<times> real) list" where
  "apply_criterion MaxSnp btags lname1 lname2 r2 w = maxsnp lname1 r2 w"
| "apply_criterion AvgSnp btags lname1 lname2 r2 w = avgsnp lname1 r2 w"
| "apply_criterion MaxTag btags lname1 lname2 r2 w =
     (if lname2 \<notin> set btags then maxsnp lname1 r2 w else w)"
| "apply_criterion AvgTag btags lname1 lname2 r2 w =
     (if lname2 \<notin> set btags then avgsnp lname1 r2 w else w)"

text \<open>The loop over \<open>bin.ld\<close>: self-pairs are skipped, every other pair is visited in both
  orders, and \<open>func()\<close> runs when the first name is a tag.\<close>

fun weigh_pairs ::
  "criterion \<Rightarrow> string list \<Rightarrow> (string \<times> string \<times> real \<times> real) list \<Rightarrow> (string \<times> real) list \<Rightarrow> (string \<times> real) list" where
  "weigh_pairs func btags [] w = w"
| "weigh_pairs func btags ((lname1, lname2, r2, dprime) # rest) w =
     (if lname1 = lname2 then weigh_pairs func btags rest w
      else
        let w1 = (if lname1 \<in> set btags then apply_criterion func btags lname1 lname2 r2 w else w);
            w2 = (if lname2 \<in> set btags then apply_criterion func btags lname2 lname1 r2 w1 else w1)
        in weigh_pairs func btags rest w2)"

text \<open>The final loop over \<open>bin.tags\<close>: \<open>w[tag]\<close> raises \<open>KeyError\<close> for a tag without an entry,
  \<open>1./weight\<close> raises \<open>ZeroDivisionError\<close> for a zero weight.\<close>

fun down_weight ::
  "(string \<times> real) list \<Rightarrow> real \<Rightarrow> real \<Rightarrow> string list \<Rightarrow> (string \<times> real) list \<Rightarrow> error + (string \<times> real) list" where
  "down_weight w maxval weight [] acc = Inr acc"
| "down_weight w maxval weight (tag # rest) acc =
     (case map_of w tag of
        None \<Rightarrow> Inl KeyError
      | Some v \<Rightarrow>
          if \<bar>v - maxval\<bar> > 1 / 10 ^ 10
          then (if weight = 0 then Inl ZeroDivisionError
                else down_weight w maxval weight rest (AList.update tag (1 / weight) acc))
          else down_weight w maxval weight rest acc)"

text \<open>\<open>build_weights(bin, method, weight)\<close>. \<open>InternalError\<close> is not defined anywhere in the
  module, so the \<open>raise\<close> for an unknown criterion is a \<open>NameError\<close>.\<close>

definition build_weights :: "BinResult \<Rightarrow> string \<Rightarrow> real \<Rightarrow> error + (string \<times> real) list" where
  "build_weights bin method weight =
     (if method = [] then Inr []
      else case find_criterion method of
        None \<Rightarrow> Inl NameError
      | Some func \<Rightarrow>
          let w = weigh_pairs func (tags bin) (ld bin) [] in
          if w = [] then Inr []
          else down_weight w (Max (set (map snd w))) weight (tags bin) [])"

text \<open>The loop of \<open>select_tags\<close> over \<open>self.weights.iteritems()\<close>, multiplying the per-criterion
  weights into one dict.\<close>

fun merge_weights :: "(string \<times> real) list \<Rightarrow> (string \<times> real) list \<Rightarrow> (string \<times> real) list" where
  "merge_weights [] acc = acc"
| "merge_weights ((lname, weight) # rest) acc =
     merge_weights rest (AList.update lname (dict_get acc lname 1 * weight) acc)"

fun all_weights ::
  "BinResult \<Rightarrow> (string \<times> real) list \<Rightarrow> (string \<times> real) list \<Rightarrow> error + (string \<times> real) list" where
  "all_weights bin [] acc = Inr acc"
| "all_weights bin ((method, weight) # rest) acc =
     (case build_weights bin method weight of
        Inl e \<Rightarrow> Inl e
      | Inr w \<Rightarrow> all_weights bin rest (merge_weights w acc))"

text \<open>Python's \<open>xs[:n]\<close>, where a negative \<open>n\<close> counts from the end.\<close>

definition py_take :: "int \<Rightarrow> 'a list \<Rightarrow> 'a list" where
  "py_take n xs = (if 0 \<le> n then take (nat n) xs else take (length xs - nat (- n)) xs)"

text \<open>\<open>TagSelector.select_tags(bin)\<close> changes the bin in place; the model returns the bin
  after the call. \<open>scores.sort(reverse=True)\<close> orders the pairs \<open>(s, tag)\<close> descending.\<close>

definition select_tags :: "TagSelector \<Rightarrow> BinResult \<Rightarrow> error + BinResult" where
  "select_tags sel bin =
     (if weights sel = [] \<and> scores sel = [] then Inr bin
      else if weights sel = [] \<and> BinResult.disposition bin = ''obligate-exclude'' then Inr bin
      else if length (tags bin) = 1 then Inr (bin\<lparr> recommended_tags := take 1 (tags bin) \<rparr>)
      else
        case all_weights bin (weights sel) [] of
          Inl e \<Rightarrow> Inl e
        | Inr ws \<Rightarrow>
            let allscores = (if BinResult.disposition bin = ''obligate-exclude'' then [] else scores sel);
                default_score = (if allscores = [] then 1 else 0);
                scored = map (\<lambda>tag. (dict_get allscores tag default_score * dict_get ws tag 1, tag)) (tags bin);
                ranked = map snd (rev (sort scored));
                rec = py_take (tags_required bin) ranked
            in Inr (bin\<lparr> tags := ranked,
                          recommended_tags :=
                            (case include_tag bin of
                               None \<Rightarrow> rec
                             | Some i \<Rightarrow> if i \<in> set rec then rec
                                 else i # py_take (tags_required bin - 1) rec) \<rparr>))"

section \<open>Bin: the class invariant\<close>

lemma Bin_init_inv: "Bin_inv (Bin_init xs m dsp mc)"
  by (simp add: Bin_inv_def Bin_init_def Let_def split: option.splits)

lemma Bin_add_inv: "Bin_inv b \<Longrightarrow> Bin_inv (Bin_add lname m b)"
  by (simp add: Bin_inv_def Bin_add_def set_add_def Let_def)

lemma removeAll_le_maxcovered:
  "Bin_inv b \<Longrightarrow> length (removeAll lname (members b)) \<le> Bin.maxcovered b"
  using length_removeAll_less_eq [of lname "members b"] unfolding Bin_inv_def by linarith

lemma Bin_discard_inv: "Bin_inv b \<Longrightarrow> Bin_inv (Bin_discard lname m b)"
  using removeAll_le_maxcovered [of b lname]
  by (simp add: Bin_inv_def Bin_discard_def distinct_removeAll)

lemma Bin_remove_inv: "Bin_inv b \<Longrightarrow> Bin_inv (fst (Bin_remove lname m b))"
  using removeAll_le_maxcovered [of b lname]
  by (simp add: Bin_inv_def Bin_remove_def set_remove_def distinct_removeAll)

section \<open>Claims about Bin\<close>

text \<open>
  C9. For every Bin \<open>b\<close>, locus name \<open>lname\<close> not contained in \<open>b\<close> and maf value \<open>m\<close>,
  \<open>b.remove(lname, m)\<close> raises \<open>KeyError\<close> and leaves \<open>b\<close> unchanged: members, maf
  accumulator, disposition and maxcovered are what they were before the call.
\<close>

theorem Bin_remove_missing_unchanged:
  assumes "lname \<notin> set (members b)"
  shows "Bin_remove lname m b = (b, Some KeyError)"
  using assms by (simp add: Bin_remove_def set_remove_def)

theorem Bin_remove_missing_unchanged_witness:
  "''rs2'' \<notin> set (members (Bin_init [''rs1''] (Some (1/4)) NORMAL None)) \<and>
   Bin_remove ''rs2'' (1/10) (Bin_init [''rs1''] (Some (1/4)) NORMAL None)
     = (Bin_init [''rs1''] (Some (1/4)) NORMAL None, Some KeyError)"
proof -
  have h: "''rs2'' \<notin> set (members (Bin_init [''rs1''] (Some (1/4)) NORMAL None))"
    by (simp add: Bin_init_def)
  show ?thesis
    using h Bin_remove_missing_unchanged [OF h, of "1/10"] by simp
qed

text \<open>
  C10 (as amended). For every Bin \<open>b\<close> satisfying the class invariant, locus name \<open>lname\<close>
  already contained in \<open>b\<close> and maf value \<open>m\<close>, \<open>b.add(lname, m)\<close> leaves the member set,
  the disposition and maxcovered unchanged and still increases \<open>b.maf\<close> by \<open>m\<close>. If the
  accumulator was the sum of the members' MAFs before the call and \<open>m > 0\<close>, it strictly
  exceeds that sum afterwards; if \<open>m = 0\<close> it still equals it.
\<close>

theorem Bin_add_duplicate:
  assumes "lname \<in> set (members b)" and "Bin_inv b"
  shows "members (Bin_add lname m b) = members b \<and>
         Bin.maxcovered (Bin_add lname m b) = Bin.maxcovered b \<and>
         Bin.disposition (Bin_add lname m b) = Bin.disposition b \<and>
         Bin.maf (Bin_add lname m b) = Bin.maf b + m \<and>
         (Bin.maf b = maf_sum mf b \<and> 0 < m \<longrightarrow>
            maf_sum mf (Bin_add lname m b) < Bin.maf (Bin_add lname m b)) \<and>
         (Bin.maf b = maf_sum mf b \<and> m = 0 \<longrightarrow>
            maf_sum mf (Bin_add lname m b) = Bin.maf (Bin_add lname m b))"
  using assms by (simp add: Bin_add_def set_add_def Bin_inv_def maf_sum_def Let_def)

theorem Bin_add_duplicate_witness:
  "Bin.maf (Bin_add ''rs1'' (1/4) (Bin_init [''rs1''] (Some (1/4)) NORMAL None)) = 1/2 \<and>
   members (Bin_add ''rs1'' (1/4) (Bin_init [''rs1''] (Some (1/4)) NORMAL None)) = [''rs1''] \<and>
   maf_sum (locus_maf [(''rs1'', \<lparr>name = ''rs1'', location = 100, maf = 1/4, genos = []\<rparr>)])
     (Bin_add ''rs1'' (1/4) (Bin_init [''rs1''] (Some (1/4)) NORMAL None)) < 1/2"
proof -
  let ?b = "Bin_init [''rs1''] (Some (1/4)) NORMAL None"
  let ?mf = "locus_maf [(''rs1'', \<lparr>name = ''rs1'', location = 100, maf = 1/4, genos = []\<rparr>)]"
  have h1: "''rs1'' \<in> set (members ?b)" by (simp add: Bin_init_def)
  have h2: "Bin_inv ?b" by (rule Bin_init_inv)
  have h3: "Bin.maf ?b = maf_sum ?mf ?b"
    by (simp add: Bin_init_def maf_sum_def locus_maf_def)
  have h4: "Bin.maf ?b = 1/4" "members ?b = [''rs1'']"
    by (simp_all add: Bin_init_def)
  from Bin_add_duplicate [OF h1 h2, of "1/4" ?mf] h3 h4 show ?thesis
    by simp
qed

text \<open>The claim as stated fails for a locus of MAF 0 (a monomorphic locus): the duplicate
  add leaves the accumulator equal to the sum of the members' MAFs.\<close>

theorem Bin_add_duplicate_counterexample:
  "''rs1'' \<in> set (members (Bin_init [''rs1''] (Some 0) NORMAL None)) \<and>
   \<not> maf_sum (locus_maf [(''rs1'', \<lparr>name = ''rs1'', location = 100, maf = 0, genos = []\<rparr>)])
         (Bin_add ''rs1'' 0 (Bin_init [''rs1''] (Some 0) NORMAL None))
       < Bin.maf (Bin_add ''rs1'' 0 (Bin_init [''rs1''] (Some 0) NORMAL None))"
  by (simp add: Bin_init_def Bin_add_def set_add_def maf_sum_def locus_maf_def)

section \<open>Claims about bin_qualifier\<close>

text \<open>
  C6 (as amended). For every run with a nonzero \<open>target_bins\<close> (or \<open>target_loci\<close>) cap, every
  bin emitted after the cap is reached (bin number greater than \<open>target_bins\<close>, or
  binned-locus count greater than \<open>target_loci\<close>) whose selection-time disposition is not
  \<open>obligate-exclude\<close> has its disposition set to \<open>residual\<close> and its output qualifier
  \<open>residual\<close>; an \<open>obligate-exclude\<close> bin keeps its disposition and gets the qualifier
  \<open>excluded\<close>.
\<close>

theorem bin_qualifier_after_cap:
  assumes "(targetbins opts \<noteq> 0 \<and> targetbins opts < binnum bin) \<or>
           (targetloci opts \<noteq> 0 \<and> targetloci opts < binned_loci)"
  shows "bin_qualifier bin binned_loci opts =
           (if BinResult.disposition bin = ''obligate-exclude'' then (''excluded'', bin)
            else (''residual'', bin\<lparr> BinResult.disposition := ''residual'' \<rparr>))"
  using assms unfolding bin_qualifier_def by auto

theorem bin_qualifier_after_cap_witness:
  "bin_qualifier
     \<lparr> binnum = 3, tags = [''rs1''], others = [], tags_required = 1, average_maf = 1/4,
       include_tag = None, ld = [(''rs1'', ''rs1'', 1, 1)], disposition = ''maximal-bin'',
       maxcovered = 1, recommended_tags = [], include_typed = [] \<rparr>
     0 \<lparr> targetbins = 2, targetloci = 0, locipertag = None, loglocipertag = None \<rparr>
   = (''residual'',
     \<lparr> binnum = 3, tags = [''rs1''], others = [], tags_required = 1, average_maf = 1/4,
       include_tag = None, ld = [(''rs1'', ''rs1'', 1, 1)], disposition = ''residual'',
       maxcovered = 1, recommended_tags = [], include_typed = [] \<rparr>)"
  using bin_qualifier_after_cap
    [of "\<lparr> targetbins = 2, targetloci = 0, locipertag = None, loglocipertag = None \<rparr>"
        "\<lparr> binnum = 3, tags = [''rs1''], others = [], tags_required = 1, average_maf = 1/4,
           include_tag = None, ld = [(''rs1'', ''rs1'', 1, 1)], disposition = ''maximal-bin'',
           maxcovered = 1, recommended_tags = [], include_typed = [] \<rparr>" 0]
  by simp

text \<open>The claim as stated (``regardless of what its selection-time disposition was'') fails
  for an \<open>obligate-exclude\<close> bin emitted after the cap: the guard
  \<open>bin.disposition != 'obligate-exclude'\<close> keeps it out of the residual branch.\<close>

theorem bin_qualifier_counterexample:
  "bin_qualifier
     \<lparr> binnum = 3, tags = [''rs1''], others = [], tags_required = 1, average_maf = 1/4,
       include_tag = None, ld = [(''rs1'', ''rs1'', 1, 1)], disposition = ''obligate-exclude'',
       maxcovered = 1, recommended_tags = [], include_typed = [] \<rparr>
     0 \<lparr> targetbins = 2, targetloci = 0, locipertag = None, loglocipertag = None \<rparr>
   = (''excluded'',
     \<lparr> binnum = 3, tags = [''rs1''], others = [], tags_required = 1, average_maf = 1/4,
       include_tag = None, ld = [(''rs1'', ''rs1'', 1, 1)], disposition = ''obligate-exclude'',
       maxcovered = 1, recommended_tags = [], include_typed = [] \<rparr>)"
  by (simp add: bin_qualifier_def)

section \<open>Claims about sfloat\<close>

lemma digit_char_zero [simp]: "digit_char d = CHR ''0'' \<longleftrightarrow> d = 0"
  by (simp add: digit_char_def)

lemma digit_char_not_dot [simp]: "digit_char d \<noteq> CHR ''.''"
  by (simp add: digit_char_def)

lemma digit_char_not_minus [simp]: "digit_char d \<noteq> CHR ''-''"
  by (simp add: digit_char_def)

lemma show_nat_nonempty [simp]: "show_nat n \<noteq> []"
  by (subst show_nat.simps) simp






lemma lstrip_keep: "s \<noteq> [] \<Longrightarrow> hd s \<notin> set cs \<Longrightarrow> lstrip cs s = s"
  by (cases s) (auto simp: lstrip_def)
















text \<open>Outside the amended claim: \<open>rstrip('0.')\<close> also eats the trailing zeros of an integer
  part once the fraction is gone, so 10.0 prints as \<open>1\<close>.\<close>

lemma sfloat_ten: "sfloat (Float False 10) = ''1''"
  by (simp add: sfloat_def fmt_3f_def thousandths_def round_half_even_def
      frac3_def rstrip_def lstrip_def show_nat.simps digit_char_def)

section \<open>The LD estimator: monomorphic loci\<close>

lemma fold_min_in: "fold min cs (c::char) \<in> insert c (set cs)"
  by (induction cs arbitrary: c) (auto simp: min_def)

lemma fold_max_in: "fold max cs (c::char) \<in> insert c (set cs)"
  by (induction cs arbitrary: c) (auto simp: max_def)

lemma normalise_in: "normalise g = Inr (lo, hi) \<Longrightarrow> lo \<in> set g \<and> hi \<in> set g"
  using fold_min_in fold_max_in
  by (cases g) (auto simp: normalise_def)

lemma set_update_subset: "set (AList.update k v al) \<subseteq> insert (k, v) (set al)"
  by (induction al) auto

text \<open>The characters of the normalised genotypes of one locus come from its genotypes.\<close>

lemma count_loop_chars1:
  assumes "count_diplotypes_loop zs acc = Inr dc"
    and "\<forall>z\<in>set zs. set (fst z) \<subseteq> S"
    and "\<forall>e\<in>set acc. fst (fst (fst e)) \<in> S \<and> snd (fst (fst e)) \<in> S"
  shows "\<forall>e\<in>set dc. fst (fst (fst e)) \<in> S \<and> snd (fst (fst e)) \<in> S"
  using assms
proof (induction zs arbitrary: acc)
  case Nil
  then show ?case by simp
next
  case (Cons z zs)
  obtain g1 g2 where z: "z = (g1, g2)" by (cases z)
  show ?case
  proof (cases "g1 = ''  '' \<or> g2 = ''  ''")
    case True
    from Cons.prems(1) have "count_diplotypes_loop zs acc = Inr dc"
      unfolding z using True by simp
    from Cons.IH [OF this] Cons.prems(2,3) show ?thesis by simp
  next
    case False
    from Cons.prems(1) have step:
      "(case normalise g1 of Inl e \<Rightarrow> Inl e | Inr n1 \<Rightarrow>
        case normalise g2 of Inl e \<Rightarrow> Inl e | Inr n2 \<Rightarrow>
          count_diplotypes_loop zs
            (AList.update (n1, n2) (dict_get acc (n1, n2) 0 + 1) acc)) = Inr dc"
      unfolding z using False by simp
    then obtain n1 where n1: "normalise g1 = Inr n1"
      by (cases "normalise g1") simp_all
    from step n1 obtain n2 where n2: "normalise g2 = Inr n2"
      by (cases "normalise g2") simp_all
    note n = n1 n2
    from step n
    have r: "count_diplotypes_loop zs
                (AList.update (n1, n2) (dict_get acc (n1, n2) 0 + 1) acc) = Inr dc"
      by simp
    from n(1) normalise_in [of g1 "fst n1" "snd n1"] have "fst n1 \<in> set g1 \<and> snd n1 \<in> set g1"
      by simp
    with Cons.prems(2) z have in_S: "fst n1 \<in> S \<and> snd n1 \<in> S" by auto
    have "\<forall>e\<in>set (AList.update (n1, n2) (dict_get acc (n1, n2) 0 + 1) acc).
            fst (fst (fst e)) \<in> S \<and> snd (fst (fst e)) \<in> S"
    proof
      fix e assume "e \<in> set (AList.update (n1, n2) (dict_get acc (n1, n2) 0 + 1) acc)"
      with set_update_subset [of "(n1, n2)" "dict_get acc (n1, n2) 0 + 1" acc]
      have "e = ((n1, n2), dict_get acc (n1, n2) 0 + 1) \<or> e \<in> set acc" by blast
      with Cons.prems(3) in_S show "fst (fst (fst e)) \<in> S \<and> snd (fst (fst e)) \<in> S"
        by auto
    qed
    with Cons.IH [OF r] Cons.prems(2) show ?thesis by simp
  qed
qed

lemma count_loop_chars2:
  assumes "count_diplotypes_loop zs acc = Inr dc"
    and "\<forall>z\<in>set zs. set (snd z) \<subseteq> S"
    and "\<forall>e\<in>set acc. fst (snd (fst e)) \<in> S \<and> snd (snd (fst e)) \<in> S"
  shows "\<forall>e\<in>set dc. fst (snd (fst e)) \<in> S \<and> snd (snd (fst e)) \<in> S"
  using assms
proof (induction zs arbitrary: acc)
  case Nil
  then show ?case by simp
next
  case (Cons z zs)
  obtain g1 g2 where z: "z = (g1, g2)" by (cases z)
  show ?case
  proof (cases "g1 = ''  '' \<or> g2 = ''  ''")
    case True
    from Cons.prems(1) have "count_diplotypes_loop zs acc = Inr dc"
      unfolding z using True by simp
    from Cons.IH [OF this] Cons.prems(2,3) show ?thesis by simp
  next
    case False
    from Cons.prems(1) have step:
      "(case normalise g1 of Inl e \<Rightarrow> Inl e | Inr n1 \<Rightarrow>
        case normalise g2 of Inl e \<Rightarrow> Inl e | Inr n2 \<Rightarrow>
          count_diplotypes_loop zs
            (AList.update (n1, n2) (dict_get acc (n1, n2) 0 + 1) acc)) = Inr dc"
      unfolding z using False by simp
    then obtain n1 where n1: "normalise g1 = Inr n1"
      by (cases "normalise g1") simp_all
    from step n1 obtain n2 where n2: "normalise g2 = Inr n2"
      by (cases "normalise g2") simp_all
    note n = n1 n2
    from step n
    have r: "count_diplotypes_loop zs
                (AList.update (n1, n2) (dict_get acc (n1, n2) 0 + 1) acc) = Inr dc"
      by simp
    from n(2) normalise_in [of g2 "fst n2" "snd n2"] have "fst n2 \<in> set g2 \<and> snd n2 \<in> set g2"
      by simp
    with Cons.prems(2) z have in_S: "fst n2 \<in> S \<and> snd n2 \<in> S" by auto
    have "\<forall>e\<in>set (AList.update (n1, n2) (dict_get acc (n1, n2) 0 + 1) acc).
            fst (snd (fst e)) \<in> S \<and> snd (snd (fst e)) \<in> S"
    proof
      fix e assume "e \<in> set (AList.update (n1, n2) (dict_get acc (n1, n2) 0 + 1) acc)"
      with set_update_subset [of "(n1, n2)" "dict_get acc (n1, n2) 0 + 1" acc]
      have "e = ((n1, n2), dict_get acc (n1, n2) 0 + 1) \<or> e \<in> set acc" by blast
      with Cons.prems(3) in_S show "fst (snd (fst e)) \<in> S \<and> snd (snd (fst e)) \<in> S"
        by auto
    qed
    with Cons.IH [OF r] Cons.prems(2) show ?thesis by simp
  qed
qed

lemma distinct_singleton_length: "set xs \<subseteq> {a} \<Longrightarrow> distinct xs \<Longrightarrow> length xs \<le> 1"
proof (cases xs)
  case Nil
  then show ?thesis by simp
next
  case (Cons x ys)
  assume "set xs \<subseteq> {a}" and "distinct xs"
  with Cons have "ys = []" by (cases ys) auto
  with Cons show ?thesis by simp
qed

text \<open>With at most one allele symbol, the exemplar heterozygote is padded with NUL.\<close>

lemma find_hetz_mono:
  assumes "find_hetz alleles = Inr het" and "set alleles \<subseteq> {a, CHR '' ''}"
  shows "snd het = CHR 0x00"
proof -
  let ?h = "filter (\<lambda>c. c \<noteq> CHR '' '') (sort (remdups alleles))"
  have "set ?h \<subseteq> {a}" using assms(2) by auto
  moreover have "distinct ?h" by simp
  ultimately have "length ?h \<le> 1"
    by (rule distinct_singleton_length)
  then have "?h = [] \<or> (\<exists>x. ?h = [x])"
    by (cases ?h) (auto simp: length_Suc_conv)
  with assms(1) show ?thesis
    by (auto simp: find_hetz_def Let_def)
qed

lemma monomorphic_allele:
  assumes "monomorphic gs"
  obtains a where "a \<noteq> CHR 0x00" and "\<forall>g\<in>set gs. set g \<subseteq> {a, CHR '' ''}"
proof -
  let ?al = "remdups (filter (\<lambda>c. c \<noteq> CHR '' '') (concat gs))"
  from assms have len: "length ?al \<le> 1" and nul: "CHR 0x00 \<notin> set ?al"
    by (simp_all add: monomorphic_def Let_def)
  have mem: "\<And>g c. g \<in> set gs \<Longrightarrow> c \<in> set g \<Longrightarrow> c \<noteq> CHR '' '' \<Longrightarrow> c \<in> set ?al"
    by auto
  show ?thesis
  proof (cases ?al)
    case Nil
    have "\<forall>g\<in>set gs. set g \<subseteq> {CHR ''A'', CHR '' ''}"
    proof (intro ballI subsetI)
      fix g c assume "g \<in> set gs" and "c \<in> set g"
      with mem [of g c] Nil show "c \<in> {CHR ''A'', CHR '' ''}"
        by (cases "c = CHR '' ''") simp_all
    qed
    then show ?thesis using that [of "CHR ''A''"] by simp
  next
    case (Cons a rest)
    with len have al: "?al = [a]" by simp
    with nul have "a \<noteq> CHR 0x00" by auto
    moreover have "\<forall>g\<in>set gs. set g \<subseteq> {a, CHR '' ''}"
    proof (intro ballI subsetI)
      fix g c assume "g \<in> set gs" and "c \<in> set g"
      with mem [of g c] al show "c \<in> {a, CHR '' ''}"
        by (cases "c = CHR '' ''") simp_all
    qed
    ultimately show ?thesis using that by blast
  qed
qed

text \<open>Neither the counters of the second allele of a monomorphic first locus nor the
  double-heterozygote counter ever move.\<close>

lemma orient_snd:
  "fst g \<noteq> CHR 0x00 \<Longrightarrow> snd g \<noteq> CHR 0x00 \<Longrightarrow> snd het = CHR 0x00
     \<Longrightarrow> snd (orient het g) \<noteq> snd het"
  by (simp add: orient_def)

lemma hap_step_mono1:
  assumes "snd het1 = CHR 0x00"
    and "fst (fst (fst e)) \<noteq> CHR 0x00" and "snd (fst (fst e)) \<noteq> CHR 0x00"
  shows "\<exists>x y. hap_step het1 het2 e (c11, c12, 0, 0, 0) = (x, y, 0, 0, 0)"
proof -
  obtain g1 g2 n where e: "e = ((g1, g2), n)" by (metis prod.collapse)
  have k: "snd (orient het1 g1) \<noteq> snd het1"
    using assms e by (intro orient_snd) simp_all
  have ne: "g1 \<noteq> het1" using assms e by auto
  show ?thesis
    unfolding hap_step_def e using ne k by (simp add: Let_def)
qed

lemma fold_hap_step_mono1:
  assumes "snd het1 = CHR 0x00"
    and "\<forall>e\<in>set dc. fst (fst (fst e)) \<noteq> CHR 0x00 \<and> snd (fst (fst e)) \<noteq> CHR 0x00"
  shows "\<exists>x y. fold (hap_step het1 het2) dc (c11, c12, 0, 0, 0) = (x, y, 0, 0, 0)"
  using assms(2)
proof (induction dc arbitrary: c11 c12)
  case Nil
  then show ?case by simp
next
  case (Cons e dc)
  from Cons.prems hap_step_mono1 [OF assms(1), of e het2 c11 c12]
  obtain x y where "hap_step het1 het2 e (c11, c12, 0, 0, 0) = (x, y, 0, 0, 0)"
    by auto
  with Cons.IH [of x y] Cons.prems show ?case by simp
qed

lemma hap_step_mono2:
  assumes "snd het2 = CHR 0x00"
    and "fst (snd (fst e)) \<noteq> CHR 0x00" and "snd (snd (fst e)) \<noteq> CHR 0x00"
  shows "\<exists>x y. hap_step het1 het2 e (c11, 0, c21, 0, 0) = (x, 0, y, 0, 0)"
proof -
  obtain g1 g2 n where e: "e = ((g1, g2), n)" by (metis prod.collapse)
  have k: "snd (orient het2 g2) \<noteq> snd het2"
    using assms e by (intro orient_snd) simp_all
  have ne: "g2 \<noteq> het2" using assms e by auto
  show ?thesis
    unfolding hap_step_def e using ne k by (simp add: Let_def)
qed

lemma fold_hap_step_mono2:
  assumes "snd het2 = CHR 0x00"
    and "\<forall>e\<in>set dc. fst (snd (fst e)) \<noteq> CHR 0x00 \<and> snd (snd (fst e)) \<noteq> CHR 0x00"
  shows "\<exists>x y. fold (hap_step het1 het2) dc (c11, 0, c21, 0, 0) = (x, 0, y, 0, 0)"
  using assms(2)
proof (induction dc arbitrary: c11 c21)
  case Nil
  then show ?case by simp
next
  case (Cons e dc)
  from Cons.prems hap_step_mono2 [OF assms(1), of e het1 c11 c21]
  obtain x y where "hap_step het1 het2 e (c11, 0, c21, 0, 0) = (x, 0, y, 0, 0)"
    by auto
  with Cons.IH [of x y] Cons.prems show ?case by simp
qed

lemma count_haplotypes_mono1:
  assumes "monomorphic genos1" and "slow_count_haplotypes genos1 genos2 = Inr cs"
  shows "\<exists>x y. cs = (x, y, 0, 0, 0)"
proof -
  from assms(1) obtain a where a: "a \<noteq> CHR 0x00"
    and gs: "\<forall>g\<in>set genos1. set g \<subseteq> {a, CHR '' ''}"
    by (rule monomorphic_allele)
  from assms(2) obtain dc het1 het2 where
    dc: "count_diplotypes_loop (zip genos1 genos2) [] = Inr dc"
    and het: "find_heterozygotes dc = Inr (het1, het2)"
    and cs: "cs = fold (hap_step het1 het2) dc (0, 0, 0, 0, 0)"
    by (auto simp: slow_count_haplotypes_def count_diplotypes_def split: if_splits sum.splits)
  have "\<forall>z\<in>set (zip genos1 genos2). set (fst z) \<subseteq> {a, CHR '' ''}"
    using gs by (fastforce dest: set_zip_leftD)
  from count_loop_chars1 [OF dc this]
  have chars: "\<forall>e\<in>set dc. fst (fst (fst e)) \<in> {a, CHR '' ''} \<and> snd (fst (fst e)) \<in> {a, CHR '' ''}"
    by simp
  let ?a1 = "concat (map (\<lambda>((g1, g2), n). [fst g1, snd g1]) dc)"
  from het obtain h1: "find_hetz ?a1 = Inr het1"
    by (auto simp: find_heterozygotes_def Let_def split: sum.splits)
  have "set ?a1 \<subseteq> {a, CHR '' ''}"
    using chars by (auto split: prod.splits)
  with h1 have nul: "snd het1 = CHR 0x00" by (rule find_hetz_mono)
  have "\<forall>e\<in>set dc. fst (fst (fst e)) \<noteq> CHR 0x00 \<and> snd (fst (fst e)) \<noteq> CHR 0x00"
    using chars a by auto
  from fold_hap_step_mono1 [OF nul this, of het2 0 0] cs show ?thesis by simp
qed

lemma count_haplotypes_mono2:
  assumes "monomorphic genos2" and "slow_count_haplotypes genos1 genos2 = Inr cs"
  shows "\<exists>x y. cs = (x, 0, y, 0, 0)"
proof -
  from assms(1) obtain a where a: "a \<noteq> CHR 0x00"
    and gs: "\<forall>g\<in>set genos2. set g \<subseteq> {a, CHR '' ''}"
    by (rule monomorphic_allele)
  from assms(2) obtain dc het1 het2 where
    dc: "count_diplotypes_loop (zip genos1 genos2) [] = Inr dc"
    and het: "find_heterozygotes dc = Inr (het1, het2)"
    and cs: "cs = fold (hap_step het1 het2) dc (0, 0, 0, 0, 0)"
    by (auto simp: slow_count_haplotypes_def count_diplotypes_def split: if_splits sum.splits)
  have "\<forall>z\<in>set (zip genos1 genos2). set (snd z) \<subseteq> {a, CHR '' ''}"
    using gs by (fastforce dest: set_zip_rightD)
  from count_loop_chars2 [OF dc this]
  have chars: "\<forall>e\<in>set dc. fst (snd (fst e)) \<in> {a, CHR '' ''} \<and> snd (snd (fst e)) \<in> {a, CHR '' ''}"
    by simp
  let ?a2 = "concat (map (\<lambda>((g1, g2), n). [fst g2, snd g2]) dc)"
  from het obtain h2: "find_hetz ?a2 = Inr het2"
    by (auto simp: find_heterozygotes_def Let_def split: sum.splits)
  have "set ?a2 \<subseteq> {a, CHR '' ''}"
    using chars by (auto split: prod.splits)
  with h2 have nul: "snd het2 = CHR 0x00" by (rule find_hetz_mono)
  have "\<forall>e\<in>set dc. fst (snd (fst e)) \<noteq> CHR 0x00 \<and> snd (snd (fst e)) \<noteq> CHR 0x00"
    using chars a by auto
  from fold_hap_step_mono2 [OF nul this, of het1 0 0] cs show ?thesis by simp
qed

section \<open>Claims about the LD estimator\<close>

text \<open>
  C4. For every haplotype-count input \<open>(c11, c12, c21, c22, dh)\<close> in which both markers have
  fewer than two observed alleles (one of the two allele counts of each marker is zero) and
  \<open>dh = 0\<close>, the LD estimator returns \<open>(0, 0)\<close> without performing any EM iteration; and
  for counts derived from a monomorphic locus paired against any other locus (in either
  position), the estimate is \<open>r2 = 0\<close> and \<open>Dprime = 0\<close>, again without any EM iteration.
\<close>

theorem estimate_ld_monomorphic:
  "(dh = 0 \<and> (c11 + c12 = 0 \<or> c21 + c22 = 0) \<and> (c11 + c21 = 0 \<or> c12 + c22 = 0) \<longrightarrow>
      slow_estimate_ld_run (c11, c12, c21, c22, dh) = Inr ((0, 0), 0) \<and>
      slow_estimate_ld (c11, c12, c21, c22, dh) = Inr (0, 0)) \<and>
   ((monomorphic genos1 \<or> monomorphic genos2) \<and>
    slow_count_haplotypes genos1 genos2 = Inr cs \<longrightarrow>
      slow_estimate_ld_run cs = Inr ((0, 0), 0) \<and> slow_estimate_ld cs = Inr (0, 0))"
proof (intro conjI impI)
  assume h: "dh = 0 \<and> (c11 + c12 = 0 \<or> c21 + c22 = 0) \<and> (c11 + c21 = 0 \<or> c12 + c22 = 0)"
  then show 1: "slow_estimate_ld_run (c11, c12, c21, c22, dh) = Inr ((0, 0), 0)"
    by (auto simp: slow_estimate_ld_run_def)
  then show "slow_estimate_ld (c11, c12, c21, c22, dh) = Inr (0, 0)"
    by (simp add: slow_estimate_ld_def)
next
  assume h: "(monomorphic genos1 \<or> monomorphic genos2) \<and>
             slow_count_haplotypes genos1 genos2 = Inr cs"
  then have "(\<exists>x y. cs = (x, y, 0, 0, 0)) \<or> (\<exists>x y. cs = (x, 0, y, 0, 0))"
    using count_haplotypes_mono1 [of genos1 genos2 cs] count_haplotypes_mono2 [of genos2 genos1 cs]
    by blast
  then show 2: "slow_estimate_ld_run cs = Inr ((0, 0), 0)"
    by (auto simp: slow_estimate_ld_run_def)
  then show "slow_estimate_ld cs = Inr (0, 0)"
    by (simp add: slow_estimate_ld_def)
qed

theorem estimate_ld_monomorphic_witness:
  "monomorphic [''AA'', ''AA'', ''A '', ''  ''] \<and>
   slow_count_haplotypes [''AA'', ''AA'', ''A '', ''  ''] [''CC'', ''CD'', ''DD'', ''CC'']
     = Inr (3, 2, 0, 0, 0) \<and>
   slow_estimate_ld_run (3, 2, 0, 0, 0) = Inr ((0, 0), 0) \<and>
   slow_estimate_ld (0, 7, 0, 0, 0) = Inr (0, 0)"
proof -
  have m: "monomorphic [''AA'', ''AA'', ''A '', ''  '']"
    by (simp add: monomorphic_def)
  have c: "slow_count_haplotypes [''AA'', ''AA'', ''A '', ''  ''] [''CC'', ''CD'', ''DD'', ''CC'']
      = Inr (3, 2, 0, 0, 0)"
    by (simp add: slow_count_haplotypes_def count_diplotypes_def normalise_def dict_get_def
        find_heterozygotes_def find_hetz_def hap_step_def orient_def has_missing_def)
  from estimate_ld_monomorphic
    [of 0 0 7 0 0 "[''AA'', ''AA'', ''A '', ''  '']" "[''CC'', ''CD'', ''DD'', ''CC'']" "(3, 2, 0, 0, 0)"]
    m c
  show ?thesis by simp
qed

section \<open>The LD estimator: the range of D'\<close>

subsection \<open>The haplotype counts\<close>







subsection \<open>The EM loop keeps the marginals\<close>




subsection \<open>The bound\<close>






section \<open>Claims about scan_ldpairs\<close>

lemma scan_inner_sound:
  "i < j \<Longrightarrow> t \<in> set (fst (scan_inner loci maxd rth dth i j)) \<Longrightarrow>
     good_pair loci maxd rth dth t \<and> fst t = i \<and> j \<le> fst (snd t)"
proof (induction loci maxd rth dth i j rule: scan_inner.induct)
  case (1 loci maxd rth dth i j)
  show ?case
  proof (cases "j < length loci \<and> \<not> location (loci ! j) - location (loci ! i) > maxd")
    case False
    with "1.prems"(2) show ?thesis
      by (subst (asm) scan_inner.simps) (auto split: if_splits)
  next
    case True
    show ?thesis
    proof (cases "pair_ld (loci ! i) (loci ! j)")
      case (Inl e)
      with True "1.prems"(2) show ?thesis
        by (subst (asm) scan_inner.simps) simp
    next
      case (Inr res)
      obtain r2 dprime where res: "res = (r2, dprime)" by (cases res)
      obtain ys err where rest: "scan_inner loci maxd rth dth i (Suc j) = (ys, err)"
        by (cases "scan_inner loci maxd rth dth i (Suc j)")
      from "1.prems"(2) True Inr res rest
      have mem: "t \<in> set ((if r2 \<ge> rth \<and> \<bar>dprime\<bar> \<ge> dth then [(i, j, r2, dprime)] else []) @ ys)"
        by (subst (asm) scan_inner.simps) simp
      show ?thesis
      proof (cases "t \<in> set ys")
        case True
        have "i < Suc j" using "1.prems"(1) by simp
        from "1.IH" [OF _ _ Inr res [symmetric] this] \<open>j < length loci \<and> _\<close> True rest
        show ?thesis by auto
      next
        case False
        with mem have "t = (i, j, r2, dprime)" and "r2 \<ge> rth \<and> \<bar>dprime\<bar> \<ge> dth"
          by (auto split: if_splits)
        with True Inr res "1.prems"(1) show ?thesis
          by (simp add: good_pair_def)
      qed
    qed
  qed
qed

lemma index_less: "index_of a < index_of b \<longleftrightarrow>
    fst a < fst b \<or> (fst a = fst b \<and> fst (snd a) < fst (snd b))"
  by (auto simp: index_of_def less_prod_def)

lemma scan_inner_sorted:
  "i < j \<Longrightarrow> sorted_wrt (\<lambda>a b. index_of a < index_of b) (fst (scan_inner loci maxd rth dth i j))"
proof (induction loci maxd rth dth i j rule: scan_inner.induct)
  case (1 loci maxd rth dth i j)
  show ?case
  proof (cases "j < length loci \<and> \<not> location (loci ! j) - location (loci ! i) > maxd")
    case False
    then show ?thesis
      by (subst scan_inner.simps) auto
  next
    case True
    show ?thesis
    proof (cases "pair_ld (loci ! i) (loci ! j)")
      case (Inl e)
      with True show ?thesis
        by (subst scan_inner.simps) simp
    next
      case (Inr res)
      obtain r2 dprime where res: "res = (r2, dprime)" by (cases res)
      obtain ys err where rest: "scan_inner loci maxd rth dth i (Suc j) = (ys, err)"
        by (cases "scan_inner loci maxd rth dth i (Suc j)")
      have lt: "i < Suc j" using "1.prems" by simp
      from "1.IH" [OF _ _ Inr res [symmetric] lt] True rest
      have s: "sorted_wrt (\<lambda>a b. index_of a < index_of b) ys" by simp
      have later: "\<forall>t\<in>set ys. index_of (i, j, r2, dprime) < index_of t"
      proof
        fix t assume "t \<in> set ys"
        with scan_inner_sound [OF lt, of t loci maxd rth dth] rest
        have "fst t = i \<and> Suc j \<le> fst (snd t)" by simp
        then show "index_of (i, j, r2, dprime) < index_of t"
          by (simp add: index_less)
      qed
      have "fst (scan_inner loci maxd rth dth i j) =
          (if r2 \<ge> rth \<and> \<bar>dprime\<bar> \<ge> dth then [(i, j, r2, dprime)] else []) @ ys"
        using True Inr res rest by (subst scan_inner.simps) simp
      with s later show ?thesis by simp
    qed
  qed
qed

lemma scan_outer_sound:
  "t \<in> set (fst (scan_outer loci maxd rth dth i)) \<Longrightarrow>
     good_pair loci maxd rth dth t \<and> i \<le> fst t"
proof (induction loci maxd rth dth i rule: scan_outer.induct)
  case (1 loci maxd rth dth i)
  show ?case
  proof (cases "i < length loci")
    case False
    with "1.prems" show ?thesis
      by (subst (asm) scan_outer.simps) simp
  next
    case True
    obtain ys err where inner: "scan_inner loci maxd rth dth i (Suc i) = (ys, err)"
      by (cases "scan_inner loci maxd rth dth i (Suc i)")
    have ys: "\<And>u. u \<in> set ys \<Longrightarrow> good_pair loci maxd rth dth u \<and> i \<le> fst u"
      using scan_inner_sound [of i "Suc i" _ loci maxd rth dth] inner by auto
    show ?thesis
    proof (cases err)
      case (Some e)
      with "1.prems" True inner have "t \<in> set ys"
        by (subst (asm) scan_outer.simps) simp
      with ys show ?thesis by blast
    next
      case None
      obtain zs err' where outer: "scan_outer loci maxd rth dth (Suc i) = (zs, err')"
        by (cases "scan_outer loci maxd rth dth (Suc i)")
      from "1.prems" True inner None outer have "t \<in> set ys \<or> t \<in> set zs"
        by (subst (asm) scan_outer.simps) simp
      moreover have "t \<in> set zs \<Longrightarrow> good_pair loci maxd rth dth t \<and> Suc i \<le> fst t"
        using "1.IH" [OF True inner [symmetric] None] outer by simp
      ultimately show ?thesis using ys [of t] by (cases "t \<in> set ys") simp_all
    qed
  qed
qed

lemma scan_outer_sorted:
  "sorted_wrt (\<lambda>a b. index_of a < index_of b) (fst (scan_outer loci maxd rth dth i))"
proof (induction loci maxd rth dth i rule: scan_outer.induct)
  case (1 loci maxd rth dth i)
  show ?case
  proof (cases "i < length loci")
    case False
    then show ?thesis
      by (subst scan_outer.simps) simp
  next
    case True
    obtain ys err where inner: "scan_inner loci maxd rth dth i (Suc i) = (ys, err)"
      by (cases "scan_inner loci maxd rth dth i (Suc i)")
    have sy: "sorted_wrt (\<lambda>a b. index_of a < index_of b) ys"
      using scan_inner_sorted [of i "Suc i" loci maxd rth dth] inner by simp
    have fy: "\<And>u. u \<in> set ys \<Longrightarrow> fst u = i"
      using scan_inner_sound [of i "Suc i" _ loci maxd rth dth] inner by auto
    show ?thesis
    proof (cases err)
      case (Some e)
      with True inner sy show ?thesis
        by (subst scan_outer.simps) simp
    next
      case None
      obtain zs err' where outer: "scan_outer loci maxd rth dth (Suc i) = (zs, err')"
        by (cases "scan_outer loci maxd rth dth (Suc i)")
      have sz: "sorted_wrt (\<lambda>a b. index_of a < index_of b) zs"
        using "1.IH" [OF True inner [symmetric] None] outer by simp
      have fz: "\<And>u. u \<in> set zs \<Longrightarrow> Suc i \<le> fst u"
        using scan_outer_sound [of _ loci maxd rth dth "Suc i"] outer by auto
      have "\<forall>a\<in>set ys. \<forall>b\<in>set zs. index_of a < index_of b"
        using fy fz by (fastforce simp: index_less)
      with sy sz have "sorted_wrt (\<lambda>a b. index_of a < index_of b) (ys @ zs)"
        by (simp add: sorted_wrt_append)
      with True inner None outer show ?thesis
        by (subst scan_outer.simps) simp
    qed
  qed
qed

text \<open>
  C2. For every locus list (sorted ascending by (location, name) or not) and thresholds
  \<open>maxd\<close>, \<open>rthreshold\<close>, \<open>dthreshold\<close>, every tuple \<open>(name_i, name_j, r2, dprime)\<close> yielded by
  \<open>scan_ldpairs\<close> comes from indices \<open>i < j\<close> with
  \<open>loci[j].location - loci[i].location \<le> maxd\<close>, \<open>r2 \<ge> rthreshold\<close> and
  \<open>|dprime| \<ge> dthreshold\<close>, where \<open>(r2, dprime)\<close> is the estimate for the two loci, and
  the tuples are yielded in strictly ascending order of \<open>(i, j)\<close>.
\<close>

theorem scan_ldpairs_sound:
  "\<exists>trace.
     fst (scan_ldpairs loci maxd rthreshold dthreshold) =
       map (\<lambda>(i, j, r2, dprime). (name (loci ! i), name (loci ! j), r2, dprime)) trace \<and>
     list_all (good_pair loci maxd rthreshold dthreshold) trace \<and>
     sorted_wrt (\<lambda>a b. index_of a < index_of b) trace"
proof -
  let ?trace = "fst (scan_ldpairs_trace loci maxd rthreshold dthreshold)"
  have "fst (scan_ldpairs loci maxd rthreshold dthreshold) =
       map (\<lambda>(i, j, r2, dprime). (name (loci ! i), name (loci ! j), r2, dprime)) ?trace"
    by (simp add: scan_ldpairs_def split: prod.splits)
  moreover have "list_all (good_pair loci maxd rthreshold dthreshold) ?trace"
    unfolding list_all_iff scan_ldpairs_trace_def
    using scan_outer_sound [of _ loci maxd rthreshold dthreshold 0] by blast
  moreover have "sorted_wrt (\<lambda>a b. index_of a < index_of b) ?trace"
    unfolding scan_ldpairs_trace_def by (rule scan_outer_sorted)
  ultimately show ?thesis by blast
qed

lemma example_pair_ld: "pair_ld example_locus1 example_locus2 = Inr (0, 0)"
  by (simp add: pair_ld_def example_locus1_def example_locus2_def slow_count_haplotypes_def
        count_diplotypes_def normalise_def dict_get_def find_heterozygotes_def find_hetz_def
        hap_step_def orient_def has_missing_def slow_estimate_ld_def slow_estimate_ld_run_def)

theorem scan_ldpairs_sound_witness:
  "scan_ldpairs [example_locus1, example_locus2, example_locus3] 1000 0 0
     = ([(''rs1'', ''rs2'', 0, 0)], None) \<and>
   (\<exists>trace.
      [(''rs1'', ''rs2'', 0, 0)] =
        map (\<lambda>(i, j, r2, dprime).
               (name ([example_locus1, example_locus2, example_locus3] ! i),
                name ([example_locus1, example_locus2, example_locus3] ! j), r2, dprime)) trace \<and>
      list_all (good_pair [example_locus1, example_locus2, example_locus3] 1000 0 0) trace \<and>
      sorted_wrt (\<lambda>a b. index_of a < index_of b) trace)"
proof -
  have e: "scan_ldpairs [example_locus1, example_locus2, example_locus3] 1000 0 0
      = ([(''rs1'', ''rs2'', 0, 0)], None)"
    by (simp add: scan_ldpairs_def scan_ldpairs_trace_def scan_outer.simps scan_inner.simps
          example_pair_ld)
       (simp add: example_locus1_def example_locus2_def example_locus3_def)
  from scan_ldpairs_sound [of "[example_locus1, example_locus2, example_locus3]" 1000 0 0] e
  show ?thesis by simp
qed

section \<open>Claims about scan_ldpairs_multi\<close>

text \<open>The population loop, generalised over the running minima: when it ends with
  \<open>good\<close>, every population with data has an estimate that meets its thresholds, and the
  minima are the minima of the start values and those estimates.\<close>

lemma pop_loop_good:
  assumes "pop_loop zs r0 d0 seen0 = Inr (r2, dprime, True, seen)"
  shows "\<exists>vals.
           list_all2 pop_meets
             (filter (\<lambda>(th, locus1, locus2). genos locus1 \<noteq> [] \<and> genos locus2 \<noteq> []) zs) vals \<and>
           r2 = fold min (map fst vals) r0 \<and> dprime = fold min (map snd vals) d0"
  using assms
proof (induction zs arbitrary: r0 d0 seen0)
  case Nil
  then show ?case by simp
next
  case (Cons z zs)
  obtain dth rth locus1 locus2 where z: "z = ((dth, rth), locus1, locus2)"
    by (metis prod.collapse)
  show ?case
  proof (cases "genos locus1 = [] \<or> genos locus2 = []")
    case True
    with Cons.prems z
    have "pop_loop zs r0 d0 (Some (locus1, locus2)) = Inr (r2, dprime, True, seen)"
      by auto
    from Cons.IH [OF this] True z show ?thesis by auto
  next
    case False
    with Cons.prems z obtain r2_pop dprime_pop where
      pl: "pair_ld locus1 locus2 = Inr (r2_pop, dprime_pop)"
      by (cases "pair_ld locus1 locus2") auto
    with Cons.prems z False have ok: "\<not> (r2_pop < rth \<or> \<bar>dprime_pop\<bar> < dth)"
      by (auto split: if_splits)
    with Cons.prems z False pl
    have "pop_loop zs (min r0 r2_pop) (min d0 dprime_pop) (Some (locus1, locus2))
            = Inr (r2, dprime, True, seen)"
      by auto
    from Cons.IH [OF this] obtain vals where
      v: "list_all2 pop_meets
            (filter (\<lambda>(th, locus1, locus2). genos locus1 \<noteq> [] \<and> genos locus2 \<noteq> []) zs) vals"
      and r: "r2 = fold min (map fst vals) (min r0 r2_pop)"
      and d: "dprime = fold min (map snd vals) (min d0 dprime_pop)"
      by blast
    have "pop_meets z (r2_pop, dprime_pop)"
      using pl ok z by (simp add: pop_meets_def)
    with v False z
    have "list_all2 pop_meets
            (filter (\<lambda>(th, locus1, locus2). genos locus1 \<noteq> [] \<and> genos locus2 \<noteq> []) (z # zs))
            ((r2_pop, dprime_pop) # vals)"
      by simp
    moreover have "r2 = fold min (map fst ((r2_pop, dprime_pop) # vals)) r0"
      using r by (simp add: min.commute)
    moreover have "dprime = fold min (map snd ((r2_pop, dprime_pop) # vals)) d0"
      using d by (simp add: min.commute)
    ultimately show ?thesis by blast
  qed
qed

lemma fold_min_Min: "fold min xs (x::real) = Min (insert x (set xs))"
  by (metis Min.set_eq_fold list.simps(15))

lemma fold_min_nonempty: "xs \<noteq> [] \<Longrightarrow> fold min xs (x::real) = min x (Min (set xs))"
  by (simp add: fold_min_Min)



text \<open>Without the size limit: the yielded \<open>dprime\<close> is the least of the per-population
  estimates and of 10, the value the running minimum starts from.\<close>

lemma multi_pair_start_value:
  assumes "multi_pair ths row1 row2 = Inr out" and "(name1, name2, r2, dprime) \<in> set out"
  shows "\<exists>vals. vals \<noteq> [] \<and>
           list_all2 pop_meets (pops_with_data ths row1 row2) vals \<and>
           r2 = Min (set (map fst vals)) \<and>
           dprime = min 10 (Min (set (map snd vals)))"
proof -
  from assms obtain seen where
    pl: "pop_loop (zip ths (zip row1 row2)) 10 10 None = Inr (r2, dprime, True, seen)"
    and lt: "r2 < 10"
    by (auto simp: multi_pair_def split: sum.splits if_splits option.splits)
  from pop_loop_good [OF pl] obtain vals where
    v: "list_all2 pop_meets (pops_with_data ths row1 row2) vals"
    and r: "r2 = fold min (map fst vals) 10"
    and d: "dprime = fold min (map snd vals) 10"
    unfolding pops_with_data_def by blast
  have ne: "vals \<noteq> []"
    using r lt by auto
  then have "r2 = min 10 (Min (set (map fst vals)))"
    using r by (simp add: fold_min_nonempty)
  with lt have "r2 = Min (set (map fst vals))"
    by (simp add: min_def split: if_splits)
  moreover have "dprime = min 10 (Min (set (map snd vals)))"
    using d ne by (simp add: fold_min_nonempty)
  ultimately show ?thesis using v ne by blast
qed




text \<open>When every locus of a row carries the name of the row, as in the rows built by
  \<open>merge_multi_loci\<close>, the names of a yielded tuple are the names of its two rows.\<close>

lemma minld_names:
  assumes "minld_ok rows ths (i, j, name1, name2, r2, dprime)"
    and "\<forall>l\<in>set (rows ! i). name l = a" and "\<forall>l\<in>set (rows ! j). name l = b"
  shows "name1 = a \<and> name2 = b"
proof -
  let ?zs = "zip ths (zip (rows ! i) (rows ! j))"
  from assms(1) have ne: "?zs \<noteq> []"
    and n1: "name1 = name (fst (snd (last ?zs)))"
    and n2: "name2 = name (snd (snd (last ?zs)))"
    by (simp_all add: minld_ok_def)
  from ne have "last ?zs \<in> set ?zs" by (rule last_in_set)
  then have "snd (last ?zs) \<in> set (zip (rows ! i) (rows ! j))"
    by (metis prod.collapse set_zip_rightD)
  then have "fst (snd (last ?zs)) \<in> set (rows ! i)" and "snd (snd (last ?zs)) \<in> set (rows ! j)"
    by (metis prod.collapse set_zip_leftD, metis prod.collapse set_zip_rightD)
  with assms(2,3) n1 n2 show ?thesis by simp
qed


section \<open>Claims about the binner: the assertion of build\_result\<close>

lemma ceiling_log_2_base_3_2: "\<lceil>ln 2 / ln (3 / 2 :: real)\<rceil> = 2"
proof -
  have pos: "0 < ln (3 / 2 :: real)" by simp
  have "ln (3 / 2 :: real) < ln 2"
    by (subst ln_less_cancel_iff) simp_all
  then have lower: "1 < ln 2 / ln (3 / 2 :: real)"
    using pos by (simp add: less_divide_eq)
  have "ln (2 :: real) \<le> ln ((3 / 2) ^ 2)"
    by (subst ln_le_cancel_iff) (simp_all add: power2_eq_square)
  also have "\<dots> = 2 * ln (3 / 2 :: real)"
    by (simp add: ln_realpow)
  finally have upper: "ln 2 / ln (3 / 2 :: real) \<le> 2"
    using pos by (simp add: divide_le_eq)
  from lower upper show ?thesis
    by (simp add: ceiling_eq_iff)
qed

lemma log_loci_per_tag_singleton: "log_loci_per_tag (3 / 2) (Suc 0) = Inr 2"
  using ceiling_log_2_base_3_2 by (simp add: log_loci_per_tag_def)

text \<open>
  C1, at an input where the code breaks it. With \<open>--loglocipertag 1.5\<close> the function of
  section 4.5 asks for \<open>ceil(log(2) / log(1.5)) = 2\<close> tags of a bin of one locus.
  \<open>must_split_bin\<close> lets the bin pass, because \<open>tags_required \<le> len(bin)\<close> is false, and
  the assertion \<open>len(result.tags) \<ge> result.tags_required\<close> of \<open>build_result\<close> fails: the
  binner raises \<open>AssertionError\<close> on a locus index with the single locus \<open>rs1\<close> and no
  LD pair.
\<close>

theorem binner_assertion_fails:
  "get_tags_required_function
     \<lparr> targetbins = 0, targetloci = 0, locipertag = None, loglocipertag = Some (3 / 2) \<rparr>
     = Inr (Some (log_loci_per_tag (3 / 2))) \<and>
   build_binsets [(''rs1'', example_locus1)] [] (Includes_init [] []) [] []
     = Inr ([(''rs1'', \<lparr> members = [''rs1''], maf = 0, disposition = 0, maxcovered = 1 \<rparr>)], [], []) \<and>
   binner [(''rs1'', example_locus1)]
     [(''rs1'', \<lparr> members = [''rs1''], maf = 0, disposition = 0, maxcovered = 1 \<rparr>)] []
     (Includes_init [] []) (Some (log_loci_per_tag (3 / 2)))
     = Inl AssertionError"
proof (intro conjI)
  show "get_tags_required_function
     \<lparr> targetbins = 0, targetloci = 0, locipertag = None, loglocipertag = Some (3 / 2) \<rparr>
     = Inr (Some (log_loci_per_tag (3 / 2)))"
    by (simp add: get_tags_required_function_def)
  show "build_binsets [(''rs1'', example_locus1)] [] (Includes_init [] []) [] []
     = Inr ([(''rs1'', \<lparr> members = [''rs1''], maf = 0, disposition = 0, maxcovered = 1 \<rparr>)], [], [])"
    by (simp add: build_binsets_def ensure_bin_def dict_lookup_def Bin_init_def Includes_init_def
          example_locus1_def NORMAL_def)
  show "binner [(''rs1'', example_locus1)]
     [(''rs1'', \<lparr> members = [''rs1''], maf = 0, disposition = 0, maxcovered = 1 \<rparr>)] []
     (Includes_init [] []) (Some (log_loci_per_tag (3 / 2)))
     = Inl AssertionError"
    by (simp add: binner_def binner_loop.simps pop_def split_loop.simps peek_def
          must_split_bin_def log_loci_per_tag_singleton dict_lookup_def dict_pop_def can_tag_def
          build_result_def Bin_average_maf_def)
qed

section \<open>Claims about the binner: the results partition the loci\<close>

subsection \<open>Keys of the candidate bins built by build\_binsets\<close>

lemma map_of_Some_key: "map_of al k = Some v \<Longrightarrow> k \<in> set (map fst al)"
  by (metis map_of_eq_None_iff option.distinct(1) set_map)

lemma map_of_None_key: "map_of al k = None \<Longrightarrow> k \<notin> set (map fst al)"
  by (simp add: map_of_eq_None_iff)

lemma keys_update_present:
  "map_of al k = Some v \<Longrightarrow> map fst (AList.update k v' al) = map fst al"
  using map_of_Some_key [of al k v] by (simp add: update_keys)

lemma keys_update_absent:
  "map_of al k = None \<Longrightarrow> map fst (AList.update k v' al) = map fst al @ [k]"
  using map_of_None_key [of al k] by (simp add: update_keys)

lemma keys_bin_update: "bin_update binsets lname f = Inr binsets' \<Longrightarrow> map fst binsets' = map fst binsets"
  by (auto simp: bin_update_def keys_update_present split: option.splits)

lemma keys_set_disposition [simp]: "map fst (set_disposition dsp lname binsets) = map fst binsets"
  by (auto simp: set_disposition_def keys_update_present split: option.splits)

lemma keys_fold_set_disposition [simp]:
  "map fst (fold (set_disposition dsp) xs binsets) = map fst binsets"
  by (induction xs arbitrary: binsets) simp_all

lemma keys_exclude_undesignable [simp]:
  "map fst (exclude_undesignable designscores binsets) = map fst binsets"
  by (induction binsets) (auto simp: exclude_undesignable_def)

lemma ensure_bin_keys:
  assumes "ensure_bin loci lname binsets = Inr binsets'" and "keys_ok loci binsets"
  shows "keys_ok loci binsets' \<and> set (map fst binsets') = insert lname (set (map fst binsets))"
proof (cases "map_of binsets lname")
  case None
  with assms(1) obtain L where L: "dict_lookup loci lname = Inr L"
    and b: "binsets' = AList.update lname (Bin_init [lname] (Some (Locus.maf L)) NORMAL None) binsets"
    by (auto simp: ensure_bin_def split: sum.splits)
  from L have "lname \<in> set (map fst loci)"
    by (auto simp: dict_lookup_def split: option.splits dest: map_of_Some_key)
  moreover have "map fst binsets' = map fst binsets @ [lname]"
    unfolding b using None by (rule keys_update_absent)
  moreover have "lname \<notin> set (map fst binsets)"
    using None by (rule map_of_None_key)
  ultimately show ?thesis using assms(2) by (auto simp: keys_ok_def)
next
  case (Some b)
  with assms(1) have "binsets' = binsets" by (simp add: ensure_bin_def)
  with assms(2) map_of_Some_key [OF Some] show ?thesis by auto
qed

lemma add_pair_Inr:
  "add_pair loci (lname1, lname2, r2, dprime) (binsets, lddata) = Inr (binsets', lddata') \<longleftrightarrow>
     (\<exists>bs1 bs2 bs3 L1 L2.
        ensure_bin loci lname1 binsets = Inr bs1 \<and>
        ensure_bin loci lname2 bs1 = Inr bs2 \<and>
        dict_lookup loci lname2 = Inr L2 \<and>
        bin_update bs2 lname1 (Bin_add lname2 (Locus.maf L2)) = Inr bs3 \<and>
        dict_lookup loci lname1 = Inr L1 \<and>
        bin_update bs3 lname2 (Bin_add lname1 (Locus.maf L1)) = Inr binsets' \<and>
        lddata' = AList.update (lname1, lname2) (r2, dprime) lddata)"
  by (auto simp: add_pair_def split: sum.splits)

lemma add_pair_keys:
  assumes "add_pair loci pair (binsets, lddata) = Inr (binsets', lddata')" and "keys_ok loci binsets"
  shows "keys_ok loci binsets'"
proof -
  obtain lname1 lname2 r2 dprime where p: "pair = (lname1, lname2, r2, dprime)"
    by (metis prod.collapse)
  from assms(1) [unfolded p add_pair_Inr] obtain bs1 bs2 bs3 L1 L2 where
    e1: "ensure_bin loci lname1 binsets = Inr bs1"
    and e2: "ensure_bin loci lname2 bs1 = Inr bs2"
    and l2: "dict_lookup loci lname2 = Inr L2"
    and u1: "bin_update bs2 lname1 (Bin_add lname2 (Locus.maf L2)) = Inr bs3"
    and l1: "dict_lookup loci lname1 = Inr L1"
    and u2: "bin_update bs3 lname2 (Bin_add lname1 (Locus.maf L1)) = Inr binsets'"
    and ld': "lddata' = AList.update (lname1, lname2) (r2, dprime) lddata"
    apply (elim exE conjE)
    apply (rule that)
          apply assumption+
    done
  from ensure_bin_keys [OF e1 assms(2)] have "keys_ok loci bs1" by simp
  from ensure_bin_keys [OF e2 this] have "keys_ok loci bs2" by simp
  with keys_bin_update [OF u1] keys_bin_update [OF u2] show ?thesis
    by (simp add: keys_ok_def)
qed

lemma fold_add_pair_keys:
  "fold_err (add_pair loci) pairs (binsets, lddata) = Inr (binsets', lddata')
     \<Longrightarrow> keys_ok loci binsets \<Longrightarrow> keys_ok loci binsets'"
proof (induction pairs arbitrary: binsets lddata)
  case Nil
  then show ?case by simp
next
  case (Cons pair pairs)
  from Cons.prems(1) obtain bs1 ld1 where
    s: "add_pair loci pair (binsets, lddata) = Inr (bs1, ld1)"
    and r: "fold_err (add_pair loci) pairs (bs1, ld1) = Inr (binsets', lddata')"
    by (auto split: sum.splits)
  from Cons.IH [OF r add_pair_keys [OF s Cons.prems(2)]] show ?case .
qed

lemma fold_ensure_bin_keys:
  "fold_err (ensure_bin loci) xs binsets = Inr binsets' \<Longrightarrow> keys_ok loci binsets
     \<Longrightarrow> keys_ok loci binsets' \<and> set (map fst binsets') = set xs \<union> set (map fst binsets)"
proof (induction xs arbitrary: binsets)
  case Nil
  then show ?case by simp
next
  case (Cons x xs)
  from Cons.prems(1) obtain bs1 where
    s: "ensure_bin loci x binsets = Inr bs1"
    and r: "fold_err (ensure_bin loci) xs bs1 = Inr binsets'"
    by (auto split: sum.splits)
  from ensure_bin_keys [OF s Cons.prems(2)]
  have k: "keys_ok loci bs1" and e: "set (map fst bs1) = insert x (set (map fst binsets))"
    by simp_all
  from Cons.IH [OF r k] e show ?case by auto
qed

lemma keys_remove_member:
  "remove_member loci lname lname2 binsets = Inr binsets' \<Longrightarrow> map fst binsets' = map fst binsets"
  by (auto simp: remove_member_def dict_lookup_def keys_update_present
      split: if_splits sum.splits option.splits prod.splits)

lemma keys_fold_remove_member:
  "fold_err (remove_member loci lname) xs binsets = Inr binsets' \<Longrightarrow> map fst binsets' = map fst binsets"
proof (induction xs arbitrary: binsets)
  case Nil
  then show ?case by simp
next
  case (Cons x xs)
  from Cons.prems obtain bs1 where
    s: "remove_member loci lname x binsets = Inr bs1"
    and r: "fold_err (remove_member loci lname) xs bs1 = Inr binsets'"
    by (auto split: sum.splits)
  from Cons.IH [OF r] keys_remove_member [OF s] show ?case by simp
qed

lemma keys_include_untyped:
  "include_untyped loci un lname binsets = Inr binsets' \<Longrightarrow> map fst binsets' = map fst binsets"
proof (cases "map_of binsets lname")
  case None
  assume "include_untyped loci un lname binsets = Inr binsets'"
  with None show ?thesis by (simp add: include_untyped_def)
next
  case (Some b)
  assume "include_untyped loci un lname binsets = Inr binsets'"
  with Some have "fold_err (remove_member loci lname) (filter (\<lambda>x. x \<in> set un) (members b))
            (AList.update lname (b\<lparr> Bin.disposition := INCLUDE_UNTYPED \<rparr>) binsets) = Inr binsets'"
    by (simp add: include_untyped_def)
  from keys_fold_remove_member [OF this] keys_update_present [OF Some] show ?thesis by simp
qed

lemma keys_fold_include_untyped:
  "fold_err (include_untyped loci un) xs binsets = Inr binsets' \<Longrightarrow> map fst binsets' = map fst binsets"
proof (induction xs arbitrary: binsets)
  case Nil
  then show ?case by simp
next
  case (Cons x xs)
  from Cons.prems obtain bs1 where
    s: "include_untyped loci un x binsets = Inr bs1"
    and r: "fold_err (include_untyped loci un) xs bs1 = Inr binsets'"
    by (auto split: sum.splits)
  from Cons.IH [OF r] keys_include_untyped [OF s] show ?case by simp
qed

lemma build_binsets_keys:
  assumes "build_binsets loci ldpairs includes exclude designscores = Inr (binsets, lddata, exclude')"
  shows "distinct (map fst binsets) \<and> set (map fst binsets) = set (map fst loci)"
proof -
  from assms obtain bs1 bs2 bs5 where
    a: "fold_err (add_pair loci) (concat ldpairs) ([], []) = Inr (bs1, lddata)"
    and b: "fold_err (ensure_bin loci) (map fst loci) bs1 = Inr bs2"
    and c: "fold_err (include_untyped loci (untyped includes)) (untyped includes)
              (if designscores = [] then fold (set_disposition EXCLUDE) exclude bs2
               else exclude_undesignable designscores (fold (set_disposition EXCLUDE) exclude bs2))
            = Inr bs5"
    and d: "binsets = fold (set_disposition INCLUDE_TYPED) (typed includes) bs5"
    by (auto simp: build_binsets_def Let_def split: sum.splits)
  have "keys_ok loci []" by (simp add: keys_ok_def)
  from fold_add_pair_keys [OF a this] have "keys_ok loci bs1" .
  from fold_ensure_bin_keys [OF b this]
  have k2: "keys_ok loci bs2" and s2: "set (map fst bs2) = set (map fst loci) \<union> set (map fst bs1)"
    by simp_all
  from k2 s2 have "distinct (map fst bs2) \<and> set (map fst bs2) = set (map fst loci)"
    by (auto simp: keys_ok_def)
  moreover have "map fst binsets = map fst bs2"
    using keys_fold_include_untyped [OF c] d by (simp split: if_splits)
  ultimately show ?thesis by simp
qed

subsection \<open>One emission\<close>

lemma classify_mset:
  "classify largest bins (ts, os, mc) = (ts', os', mc')
     \<Longrightarrow> mset ts' + mset os' = mset ts + mset os + mset (map fst bins)"
proof (induction bins arbitrary: ts os mc)
  case Nil
  then show ?case by simp
next
  case (Cons entry bins)
  obtain lname bin where e: "entry = (lname, bin)" by (cases entry)
  show ?case
  proof (cases "can_tag bin largest")
    case True
    with Cons.prems e obtain mc1 where
      "classify largest bins (ts @ [lname], os, mc1) = (ts', os', mc')"
      by simp
    from Cons.IH [OF this] e show ?thesis by simp
  next
    case False
    with Cons.prems e have "classify largest bins (ts, os @ [lname], mc) = (ts', os', mc')"
      by simp
    from Cons.IH [OF this] e show ?thesis by simp
  qed
qed

lemma build_result_Inr:
  assumes "build_result lname largest bins lddata includes gtr = Inr (res, lddata')"
  obtains required avg ts os mc where
    "(case gtr of None \<Rightarrow> Inr 1 | Some f \<Rightarrow> f (length (members largest))) = Inr required"
    and "Bin_average_maf largest = Inr avg"
    and "classify largest bins ([], [], Bin.maxcovered largest) = (ts, os, mc)"
    and "required \<le> int (length ts)"
    and "tags res = ts" and "others res = os" and "tags_required res = required"
proof -
  obtain required where r:
    "(case gtr of None \<Rightarrow> Inr 1 | Some f \<Rightarrow> f (length (members largest))) = Inr required"
    using assms by (cases "case gtr of None \<Rightarrow> Inr 1 | Some f \<Rightarrow> f (length (members largest))")
      (simp_all add: build_result_def)
  obtain avg where a: "Bin_average_maf largest = Inr avg"
    using assms r by (cases "Bin_average_maf largest") (simp_all add: build_result_def)
  obtain ts os mc where c: "classify largest bins ([], [], Bin.maxcovered largest) = (ts, os, mc)"
    by (metis prod.collapse)
  have ok: "required \<le> int (length ts)"
    using assms r a c by (simp add: build_result_def split: if_splits)
  obtain result_ld ld2 where t:
    "take_ld (pair_generator (members largest)) lddata (map (\<lambda>t. (t, t, 1, 1)) ts) = (result_ld, ld2)"
    by (metis prod.collapse)
  from assms r a c ok t have "tags res = ts" "others res = os" "tags_required res = required"
    by (auto simp: build_result_def)
  with r a c ok show ?thesis by (rule that)
qed

lemma build_result_mset:
  assumes "build_result lname largest bins lddata includes gtr = Inr (res, lddata')"
  shows "mset (tags res) + mset (others res) = mset (map fst bins)"
proof -
  from assms obtain ts os mc where
    c: "classify largest bins ([], [], Bin.maxcovered largest) = (ts, os, mc)"
    and t: "tags res = ts" "others res = os"
    by (rule build_result_Inr)
  from classify_mset [OF c] t show ?thesis by simp
qed

text \<open>Withdrawing the members \<open>ms\<close> of the chosen bin: each is a key of \<open>binsets\<close> and is
  moved to \<open>bins\<close>; the other keys stay.\<close>

lemma dict_pop_keys:
  assumes "dict_pop binsets lname = Inr (bin, binsets1)" and "distinct (map fst binsets)"
  shows "lname \<in> set (map fst binsets) \<and> distinct (map fst binsets1) \<and>
         set (map fst binsets1) = set (map fst binsets) - {lname} \<and>
         mset (map fst binsets1) + {#lname#} = mset (map fst binsets)"
proof -
  from assms(1) have m: "map_of binsets lname = Some bin" and b: "binsets1 = AList.delete lname binsets"
    by (auto simp: dict_pop_def split: option.splits)
  have k: "lname \<in> set (map fst binsets)" using m by (rule map_of_Some_key)
  have d: "map fst binsets1 = removeAll lname (map fst binsets)"
    unfolding b by (rule delete_keys)
  have "mset (removeAll lname (map fst binsets)) + {#lname#} = mset (map fst binsets)"
    using k assms(2) by (simp add: distinct_remove1_removeAll [symmetric])
  with k d assms(2) show ?thesis by (simp add: distinct_removeAll)
qed

lemma withdraw_keys:
  assumes "withdraw loci largest ms binsets bins = Inr (binsets', bins')"
    and "distinct (map fst binsets)"
    and "set (map fst bins) \<inter> set (map fst binsets) = {}"
  shows "mset (map fst bins') + mset (map fst binsets') = mset (map fst bins) + mset (map fst binsets) \<and>
         distinct (map fst binsets') \<and>
         mset (map fst bins') = mset (map fst bins) + mset ms"
  using assms
proof (induction ms arbitrary: binsets bins)
  case Nil
  then show ?case by simp
next
  case (Cons lname rest)
  from Cons.prems(1) obtain bin binsets1 where p: "dict_pop binsets lname = Inr (bin, binsets1)"
    by (cases "dict_pop binsets lname") auto
  from Cons.prems(1) p obtain L where l: "dict_lookup loci lname = Inr L"
    by (cases "dict_lookup loci lname") auto
  define binsets2 where "binsets2 = fold (\<lambda>lname2 bs. reduce_bin bs lname2 lname (Locus.maf L))
                 (filter (\<lambda>x. x \<notin> set (members largest)) (members bin)) binsets1"
  from Cons.prems(1) p l
  have w: "withdraw loci largest rest binsets2 (AList.update lname bin bins) = Inr (binsets', bins')"
    by (simp add: binsets2_def)
  from dict_pop_keys [OF p Cons.prems(2)]
  have k: "lname \<in> set (map fst binsets)" and d1: "distinct (map fst binsets1)"
    and s1: "set (map fst binsets1) = set (map fst binsets) - {lname}"
    and m1: "mset (map fst binsets1) + {#lname#} = mset (map fst binsets)"
    by simp_all
  have k2: "map fst binsets2 = map fst binsets1"
    by (simp add: binsets2_def)
  from k Cons.prems(3) have "lname \<notin> set (map fst bins)" by auto
  then have "map_of bins lname = None" by (simp add: map_of_eq_None_iff)
  then have kb: "map fst (AList.update lname bin bins) = map fst bins @ [lname]"
    by (rule keys_update_absent)
  have disj: "set (map fst (AList.update lname bin bins)) \<inter> set (map fst binsets2) = {}"
    using Cons.prems(3) s1 by (auto simp: kb k2)
  have d2: "distinct (map fst binsets2)" using d1 k2 by simp
  note all = Cons.IH [OF w d2 disj]
  note ih = all [THEN conjunct1]
  note dd = all [THEN conjunct2, THEN conjunct1]
  note mb = all [THEN conjunct2, THEN conjunct2]
  have "mset (map fst bins') + mset (map fst binsets')
              = mset (map fst bins) + mset (map fst binsets)"
    unfolding ih using m1 by (simp add: kb k2)
  moreover have "mset (map fst bins') = mset (map fst bins) + mset (lname # rest)"
    unfolding mb by (simp add: kb)
  ultimately show ?case using dd by blast
qed

lemma pop_keys:
  assumes "pop loci lddata gtr binsets = Inr (ref_lname, largest, bins, binsets')"
    and "distinct (map fst binsets)"
  shows "mset (map fst bins) + mset (map fst binsets') = mset (map fst binsets)"
    and "distinct (map fst binsets')"
    and "mset (map fst bins) = mset (members largest)"
proof -
  from assms(1) obtain bs1 where
    sl: "split_loop loci lddata gtr binsets = Inr (ref_lname, largest, bs1)"
    and w: "withdraw loci largest (members largest) bs1 [] = Inr (binsets', bins)"
    by (auto simp: pop_def split: if_splits sum.splits)
  from keys_split_loop [OF sl] have k: "map fst bs1 = map fst binsets" .
  with assms(2) have "distinct (map fst bs1)" by simp
  moreover have "set (map fst ([] :: binsets)) \<inter> set (map fst bs1) = {}" by simp
  ultimately have all:
    "mset (map fst bins) + mset (map fst binsets') = mset (map fst ([] :: binsets)) + mset (map fst bs1)
     \<and> distinct (map fst binsets')
     \<and> mset (map fst bins) = mset (map fst ([] :: binsets)) + mset (members largest)"
    by (rule withdraw_keys [OF w])
  note a = all [THEN conjunct1]
  note b = all [THEN conjunct2, THEN conjunct1]
  note c = all [THEN conjunct2, THEN conjunct2]
  show "mset (map fst bins) + mset (map fst binsets') = mset (map fst binsets)"
    unfolding a k by simp
  show "distinct (map fst binsets')" by (rule b)
  show "mset (map fst bins) = mset (members largest)"
    unfolding c by simp
qed

subsection \<open>A complete run\<close>

lemma binner_loop_partition:
  "binner_loop loci incl gtr binsets lddata = Inr results \<Longrightarrow> distinct (map fst binsets)
     \<Longrightarrow> mset (concat (map result_loci results)) = mset (map fst binsets)"
proof (induction loci incl gtr binsets lddata arbitrary: results rule: binner_loop.induct)
  case (1 loci incl gtr binsets lddata)
  show ?case
  proof (cases "binsets = []")
    case True
    with "1.prems"(1) show ?thesis
      by (subst (asm) binner_loop.simps) auto
  next
    case False
    from "1.prems"(1) False obtain popped where p: "pop loci lddata gtr binsets = Inr popped"
      by (subst (asm) binner_loop.simps) (simp split: sum.splits)
    obtain lname largest bins binsets' where pp: "popped = (lname, largest, bins, binsets')"
      by (metis prod.collapse)
    from "1.prems"(1) False p pp obtain built where
      b: "build_result lname largest bins lddata incl gtr = Inr built"
      by (subst (asm) binner_loop.simps) (simp split: sum.splits)
    obtain result lddata' where bb: "built = (result, lddata')" by (cases built)
    from "1.prems"(1) False p pp b bb obtain rest where
      r: "binner_loop loci incl gtr binsets' lddata' = Inr rest"
      and res: "results = result # rest"
      by (subst (asm) binner_loop.simps) (auto split: sum.splits)
    note k = pop_keys(1) [OF p [unfolded pp] "1.prems"(2)]
    note d = pop_keys(2) [OF p [unfolded pp] "1.prems"(2)]
    from "1.IH" [OF False p pp [symmetric] refl refl b bb [symmetric] r d]
    have ih: "mset (concat (map result_loci rest)) = mset (map fst binsets')" .
    from build_result_mset [OF b [unfolded bb]]
    have "mset (result_loci result) = mset (map fst bins)"
      by (simp add: result_loci_def)
    then have "mset (concat (map result_loci results))
        = mset (map fst bins) + mset (map fst binsets')"
      unfolding res using ih by simp
    then show ?thesis unfolding k .
  qed
qed

subsection \<open>A run on three loci\<close>

lemma example_build_binsets:
  "build_binsets example_loci [[(''rs1'', ''rs2'', 9 / 10, 1)]] (Includes_init [] []) [] []
     = Inr (example_binsets, [((''rs1'', ''rs2''), 9 / 10, 1)], [])"
  by (simp add: build_binsets_def add_pair_def ensure_bin_def bin_update_def dict_lookup_def
        Bin_init_def Bin_add_def Includes_init_def example_loci_def example_binsets_def
        example_locus1_def example_locus2_def example_locus3_def NORMAL_def set_add_def)

lemma example_binner:
  "binner example_loci example_binsets [((''rs1'', ''rs2''), 9 / 10, 1)] (Includes_init [] []) None
     = Inr example_results"
  by (simp add: binner_def binner_loop.simps pop_def split_loop.simps peek_def
        must_split_bin_def dict_lookup_def dict_pop_def can_tag_def
        build_result_def Bin_average_maf_def example_loci_def example_binsets_def
        example_results_def Includes_init_def INCLUDE_TYPED_def INCLUDE_UNTYPED_def
        EXCLUDE_def NORMAL_def Bin_priority_def pair_generator_def result_disposition_def
        less_prod_def less_eq_prod_def)

text \<open>
  C3. Let \<open>build_binsets\<close> return the candidate bins \<open>binsets\<close> for a locus index \<open>loci\<close>, and
  let the binner run over them to its end, returning \<open>results\<close> without raising. Then the
  tags and others of all results, taken together, are the keys of \<open>binsets\<close> as a multiset:
  every locus that entered the binner is in exactly one result, exactly once, and none is
  left out. No name occurs twice in the concatenation, and the names are those of the locus
  index.
\<close>

theorem binner_partition:
  assumes "build_binsets loci ldpairs includes exclude designscores = Inr (binsets, lddata, exclude')"
    and "binner loci binsets lddata includes get_tags_required = Inr results"
  shows "mset (concat (map result_loci results)) = mset (map fst binsets)
     \<and> distinct (concat (map result_loci results))
     \<and> set (concat (map result_loci results)) = set (map fst loci)"
proof -
  note keys = build_binsets_keys [OF assms(1)]
  note d = keys [THEN conjunct1]
  note s = keys [THEN conjunct2]
  from assms(2) have "binner_loop loci includes get_tags_required binsets lddata = Inr results"
    by (simp add: binner_def)
  then have m: "mset (concat (map result_loci results)) = mset (map fst binsets)"
    using d by (rule binner_loop_partition)
  from m d have "distinct (concat (map result_loci results))"
    by (metis mset_eq_imp_distinct_iff)
  moreover from m have "set (concat (map result_loci results)) = set (map fst binsets)"
    by (rule mset_eq_setD)
  ultimately show ?thesis using m s by simp
qed

theorem binner_partition_witness:
  "build_binsets example_loci [[(''rs1'', ''rs2'', 9 / 10, 1)]] (Includes_init [] []) [] []
     = Inr (example_binsets, [((''rs1'', ''rs2''), 9 / 10, 1)], []) \<and>
   binner example_loci example_binsets [((''rs1'', ''rs2''), 9 / 10, 1)] (Includes_init [] []) None
     = Inr example_results \<and>
   map result_loci example_results = [[''rs1'', ''rs2''], [''rs3'']] \<and>
   mset (concat (map result_loci example_results)) = mset (map fst example_binsets) \<and>
   distinct (concat (map result_loci example_results)) \<and>
   set (concat (map result_loci example_results)) = set (map fst example_loci)"
proof -
  have "map result_loci example_results = [[''rs1'', ''rs2''], [''rs3'']]"
    by (simp add: example_results_def result_loci_def)
  with binner_partition [OF example_build_binsets example_binner]
    example_build_binsets example_binner
  show ?thesis by blast
qed
section \<open>The LD table built by build\_binsets\<close>

text \<open>\<open>build_binsets\<close> fills \<open>lddata\<close> only in its loop over the pairs it is given: every
  entry of the table is one of the tuples yielded by the scan, with the values of that
  tuple.\<close>

lemma add_pair_lddata:
  assumes "add_pair loci pair (binsets, lddata) = Inr (binsets', lddata')"
  shows "set lddata' \<subseteq> insert ((fst pair, fst (snd pair)), snd (snd pair)) (set lddata)"
proof -
  obtain lname1 lname2 r2 dprime where p: "pair = (lname1, lname2, r2, dprime)"
    by (metis prod.collapse)
  from assms [unfolded p add_pair_Inr]
  have "lddata' = AList.update (lname1, lname2) (r2, dprime) lddata" by blast
  then show ?thesis
    using set_update_subset [of "(lname1, lname2)" "(r2, dprime)" lddata] by (simp add: p)
qed

lemma fold_add_pair_lddata:
  "fold_err (add_pair loci) pairs (binsets, lddata) = Inr (binsets', lddata')
     \<Longrightarrow> set lddata' \<subseteq> set lddata \<union> (\<lambda>p. ((fst p, fst (snd p)), snd (snd p))) ` set pairs"
proof (induction pairs arbitrary: binsets lddata)
  case Nil
  then show ?case by simp
next
  case (Cons pair pairs)
  from Cons.prems(1) obtain bs1 ld1 where
    s: "add_pair loci pair (binsets, lddata) = Inr (bs1, ld1)"
    and r: "fold_err (add_pair loci) pairs (bs1, ld1) = Inr (binsets', lddata')"
    by (auto split: sum.splits)
  from Cons.IH [OF r] add_pair_lddata [OF s] show ?case by auto
qed

lemma build_binsets_lddata:
  assumes "build_binsets loci ldpairs includes exclude designscores = Inr (binsets, lddata, exclude')"
    and "((lname1, lname2), (r2, dprime)) \<in> set lddata"
  shows "(lname1, lname2, r2, dprime) \<in> set (concat ldpairs)"
proof -
  from assms(1) obtain bs1 where
    a: "fold_err (add_pair loci) (concat ldpairs) ([], []) = Inr (bs1, lddata)"
    by (auto simp: build_binsets_def Let_def split: sum.splits)
  from fold_add_pair_lddata [OF a] assms(2)
  have "((lname1, lname2), (r2, dprime)) \<in> (\<lambda>p. ((fst p, fst (snd p)), snd (snd p))) ` set (concat ldpairs)"
    by auto
  then show ?thesis by force
qed

section \<open>Claims about the tag selector\<close>

text \<open>
  C7 (as amended). For every emitted bin passed to the tag selector: if there are no
  configured weighting criteria and no design scores the bin is returned unchanged, and so is
  an \<open>obligate-exclude\<close> bin when there are no weighting criteria (in both cases
  \<open>recommended_tags\<close> stays as \<open>build_result\<close> left it); in every other case a singleton
  bin (exactly one tag) gets that sole tag as its \<open>recommended_tags\<close>.
\<close>

theorem select_tags_singleton:
  "(weights sel = [] \<and> scores sel = [] \<longrightarrow> select_tags sel bin = Inr bin) \<and>
   (weights sel = [] \<and> BinResult.disposition bin = ''obligate-exclude'' \<longrightarrow>
      select_tags sel bin = Inr bin) \<and>
   (\<not> (weights sel = [] \<and> scores sel = []) \<and>
    \<not> (weights sel = [] \<and> BinResult.disposition bin = ''obligate-exclude'') \<and>
    tags bin = [t] \<longrightarrow>
      select_tags sel bin = Inr (bin\<lparr> recommended_tags := [t] \<rparr>))"
  by (simp add: select_tags_def)

theorem select_tags_singleton_witness:
  "select_tags \<lparr> scores = [(''rs1'', 1/2)], weights = [] \<rparr>
     \<lparr> binnum = 1, tags = [''rs1''], others = [''rs2''], tags_required = 1, average_maf = 1/4,
       include_tag = None, ld = [(''rs1'', ''rs1'', 1, 1), (''rs1'', ''rs2'', 9/10, 1)],
       disposition = ''maximal-bin'', maxcovered = 2, recommended_tags = [],
       include_typed = [] \<rparr>
   = Inr \<lparr> binnum = 1, tags = [''rs1''], others = [''rs2''], tags_required = 1, average_maf = 1/4,
       include_tag = None, ld = [(''rs1'', ''rs1'', 1, 1), (''rs1'', ''rs2'', 9/10, 1)],
       disposition = ''maximal-bin'', maxcovered = 2, recommended_tags = [''rs1''],
       include_typed = [] \<rparr>"
  using select_tags_singleton
    [of "\<lparr> scores = [(''rs1'', 1/2)], weights = [] \<rparr>"
        "\<lparr> binnum = 1, tags = [''rs1''], others = [''rs2''], tags_required = 1,
           average_maf = 1/4, include_tag = None,
           ld = [(''rs1'', ''rs1'', 1, 1), (''rs1'', ''rs2'', 9/10, 1)],
           disposition = ''maximal-bin'', maxcovered = 2, recommended_tags = [],
           include_typed = [] \<rparr>" "''rs1''"]
  by simp

text \<open>The claim as stated fails for a singleton bin when neither weighting criteria nor
  design scores are configured: the early \<open>return\<close> comes before the singleton case, and the
  \<open>recommended_tags\<close> of the bin stay empty.\<close>

theorem select_tags_counterexample:
  "select_tags \<lparr> scores = [], weights = [] \<rparr>
     \<lparr> binnum = 1, tags = [''rs1''], others = [], tags_required = 1, average_maf = 1/4,
       include_tag = None, ld = [(''rs1'', ''rs1'', 1, 1)],
       disposition = ''maximal-bin'', maxcovered = 1, recommended_tags = [],
       include_typed = [] \<rparr>
   = Inr \<lparr> binnum = 1, tags = [''rs1''], others = [], tags_required = 1, average_maf = 1/4,
       include_tag = None, ld = [(''rs1'', ''rs1'', 1, 1)],
       disposition = ''maximal-bin'', maxcovered = 1, recommended_tags = [],
       include_typed = [] \<rparr>"
  by (simp add: select_tags_def)

end
